theory Spec2Isabelle
  imports Main "HOL-Library.Sublist"
begin

section \<open>Data model: the tables of the migration\<close>

text \<open>
  The schema is the SQL migration shipped with the pages. Every table is a list of rows in
  stored order: an insert appends, a delete filters, and a select without
  \<^verbatim>\<open>order by\<close> returns the rows in stored order. Identifiers (\<^verbatim>\<open>uuid\<close>) are strings,
  timestamps are natural numbers. The two column defaults that are not functions of the
  database, \<^verbatim>\<open>gen_random_uuid()\<close> and \<^verbatim>\<open>now()\<close>, are arguments of the
  statement that uses them.
\<close>

type_synonym uuid = string
type_synonym timestamp = nat

text \<open>\<^verbatim>\<open>auth.users\<close>: only the columns the migration reads (\<^verbatim>\<open>new.id\<close>, \<^verbatim>\<open>new.email\<close>).\<close>

record auth_user =
  auth_id :: uuid
  auth_email :: "string option"

record profile =
  profile_id :: uuid
  profile_user_id :: uuid
  display_name :: "string option"
  avatar_url :: "string option"
  profile_created_at :: timestamp

record photo =
  photo_id :: uuid
  photo_user_id :: uuid
  photo_url :: string
  photo_title :: "string option"
  photo_description :: "string option"
  photo_created_at :: timestamp

record album =
  album_id :: uuid
  album_user_id :: uuid
  album_name :: string
  album_description :: "string option"
  cover_photo_id :: "uuid option"
  album_created_at :: timestamp

record album_photo =
  ap_album_id :: uuid
  ap_photo_id :: uuid
  added_at :: timestamp

record db =
  auth_users :: "auth_user list"
  profiles :: "profile list"
  photos :: "photo list"
  albums :: "album list"
  album_photos :: "album_photo list"

text \<open>
  What a request to the backend can answer besides data: a violated row-level-security
  check, a violated unique or primary key, a violated foreign key, the \<^verbatim>\<open>.single()\<close>
  modifier not finding exactly one row, and a request that failed before it reached the
  database (network, expired session).
\<close>

datatype pg_error =
  RlsViolation | UniqueViolation | ForeignKeyViolation | NoSingleRow | RequestFailed

text \<open>
  The client library answers \<^verbatim>\<open>{ data, error }\<close>: \<open>Inl e\<close> is an answer with
  \<^verbatim>\<open>error\<close> set and \<^verbatim>\<open>data\<close> null, \<open>Inr x\<close> one with \<^verbatim>\<open>data\<close> set. The first
  argument of \<open>request\<close> is the failure of the transport, if any; a failed request does
  not reach the database.
\<close>

definition request :: "pg_error option \<Rightarrow> (pg_error + 'a) \<Rightarrow> pg_error + 'a" where
  "request fault answer = (case fault of Some e \<Rightarrow> Inl e | None \<Rightarrow> answer)"

subsection \<open>Row-level-security policies\<close>

text \<open>The first argument is \<^verbatim>\<open>auth.uid()\<close>, the identity of the session.\<close>

definition profiles_update_policy :: "uuid \<Rightarrow> profile \<Rightarrow> bool" where
  "profiles_update_policy uid p = (uid = profile_user_id p)"

definition profiles_insert_policy :: "uuid \<Rightarrow> profile \<Rightarrow> bool" where
  "profiles_insert_policy uid p = (uid = profile_user_id p)"

definition photos_select_policy :: "uuid \<Rightarrow> photo \<Rightarrow> bool" where
  "photos_select_policy uid p = (uid = photo_user_id p)"

definition photos_insert_policy :: "uuid \<Rightarrow> photo \<Rightarrow> bool" where
  "photos_insert_policy uid p = (uid = photo_user_id p)"

definition photos_delete_policy :: "uuid \<Rightarrow> photo \<Rightarrow> bool" where
  "photos_delete_policy uid p = (uid = photo_user_id p)"

definition albums_select_policy :: "uuid \<Rightarrow> album \<Rightarrow> bool" where
  "albums_select_policy uid a = (uid = album_user_id a)"

definition albums_insert_policy :: "uuid \<Rightarrow> album \<Rightarrow> bool" where
  "albums_insert_policy uid a = (uid = album_user_id a)"

definition albums_delete_policy :: "uuid \<Rightarrow> album \<Rightarrow> bool" where
  "albums_delete_policy uid a = (uid = album_user_id a)"

text \<open>
  The three policies of \<^verbatim>\<open>album_photos\<close> have the same body:
  \<^verbatim>\<open>exists (select 1 from albums where albums.id = album_photos.album_id and albums.user_id = auth.uid())\<close>.
  Only the album is looked at; the photo of the row is not.
\<close>

definition owns_album :: "db \<Rightarrow> uuid \<Rightarrow> uuid \<Rightarrow> bool" where
  "owns_album d uid aid = list_ex (\<lambda>a. album_id a = aid \<and> album_user_id a = uid) (albums d)"

definition album_photos_select_policy :: "db \<Rightarrow> uuid \<Rightarrow> album_photo \<Rightarrow> bool" where
  "album_photos_select_policy d uid r = owns_album d uid (ap_album_id r)"

definition album_photos_insert_policy :: "db \<Rightarrow> uuid \<Rightarrow> album_photo \<Rightarrow> bool" where
  "album_photos_insert_policy d uid r = owns_album d uid (ap_album_id r)"

definition album_photos_delete_policy :: "db \<Rightarrow> uuid \<Rightarrow> album_photo \<Rightarrow> bool" where
  "album_photos_delete_policy d uid r = owns_album d uid (ap_album_id r)"

subsection \<open>Statements on \<^verbatim>\<open>album_photos\<close>\<close>

definition is_member :: "db \<Rightarrow> uuid \<Rightarrow> uuid \<Rightarrow> bool" where
  "is_member d aid pid =
     list_ex (\<lambda>r. ap_album_id r = aid \<and> ap_photo_id r = pid) (album_photos d)"

text \<open>The member photo ids of an album, in the stored order of the membership rows.\<close>

definition album_members :: "db \<Rightarrow> uuid \<Rightarrow> uuid list" where
  "album_members d aid = map ap_photo_id (filter (\<lambda>r. ap_album_id r = aid) (album_photos d))"

text \<open>A photo row with this id that belongs to this user.\<close>

definition owns_photo :: "db \<Rightarrow> uuid \<Rightarrow> uuid \<Rightarrow> bool" where
  "owns_photo d uid pid = list_ex (\<lambda>p. photo_id p = pid \<and> photo_user_id p = uid) (photos d)"

text \<open>
  \<^verbatim>\<open>insert into album_photos (album_id, photo_id) values ...\<close>, one statement for all
  rows. Each row gets \<^verbatim>\<open>added_at = now()\<close>, passes the insert policy, and enters the
  primary-key index on \<^verbatim>\<open>(album_id, photo_id)\<close>, which refuses a pair that is already
  there (stored before, or inserted earlier by the same statement). The foreign keys are
  checked when all rows are in. Any error aborts the statement, and the table is as before.
\<close>

fun insert_album_photos_rows ::
  "db \<Rightarrow> uuid \<Rightarrow> timestamp \<Rightarrow> (uuid \<times> uuid) list \<Rightarrow> pg_error + db" where
  "insert_album_photos_rows d uid now [] = Inr d"
| "insert_album_photos_rows d uid now ((aid, pid) # rest) =
     (let row = \<lparr>ap_album_id = aid, ap_photo_id = pid, added_at = now\<rparr> in
      if \<not> album_photos_insert_policy d uid row then Inl RlsViolation
      else if is_member d aid pid then Inl UniqueViolation
      else insert_album_photos_rows
             (d\<lparr>album_photos := album_photos d @ [row]\<rparr>) uid now rest)"

definition album_photos_fkeys :: "db \<Rightarrow> (uuid \<times> uuid) \<Rightarrow> bool" where
  "album_photos_fkeys d = (\<lambda>(aid, pid).
     aid \<in> set (map album_id (albums d)) \<and> pid \<in> set (map photo_id (photos d)))"

definition insert_album_photos ::
  "db \<Rightarrow> uuid \<Rightarrow> timestamp \<Rightarrow> (uuid \<times> uuid) list \<Rightarrow> pg_error + db" where
  "insert_album_photos d uid now rows =
     (case insert_album_photos_rows d uid now rows of
        Inl e \<Rightarrow> Inl e
      | Inr d' \<Rightarrow>
          if list_all (album_photos_fkeys d') rows then Inr d' else Inl ForeignKeyViolation)"

text \<open>
  \<^verbatim>\<open>delete from album_photos where album_id = .. and photo_id = ..\<close>: the rows the
  delete policy hides are not touched, and deleting no row is not an error.
\<close>

definition delete_album_photo :: "db \<Rightarrow> uuid \<Rightarrow> uuid \<Rightarrow> uuid \<Rightarrow> db" where
  "delete_album_photo d uid aid pid =
     d\<lparr>album_photos :=
         filter (\<lambda>r. \<not> (album_photos_delete_policy d uid r \<and>
                         ap_album_id r = aid \<and> ap_photo_id r = pid))
           (album_photos d)\<rparr>"

subsection \<open>The album page: adding photos\<close>

text \<open>What a handler leaves on the screen: nothing (it returned early), the error toast
  with the backend's error, or the success toast.\<close>

datatype outcome = Returned | ErrorToast pg_error | SuccessToast

text \<open>
  \<open>handleAddPhotos\<close> of the album page. \<open>uid\<close> is the user of the session,
  \<open>route_id\<close> the route parameter \<^verbatim>\<open>id\<close> (absent or a string; \<^verbatim>\<open>!id\<close> holds when
  it is absent or empty) and \<open>selectedPhotos\<close> the ids ticked in the picker. The reload
  that follows a success is \<open>loadAlbumData\<close> on the database returned here.
\<close>

definition handleAddPhotos ::
  "db \<Rightarrow> uuid \<Rightarrow> timestamp \<Rightarrow> pg_error option \<Rightarrow> uuid option \<Rightarrow> uuid list \<Rightarrow> db \<times> outcome" where
  "handleAddPhotos d uid now fault route_id selectedPhotos =
     (case route_id of
        None \<Rightarrow> (d, Returned)
      | Some aid \<Rightarrow>
          if aid = [] \<or> length selectedPhotos = 0 then (d, Returned)
          else
            (let inserts = map (\<lambda>photoId. (aid, photoId)) selectedPhotos in
             case request fault (insert_album_photos d uid now inserts) of
               Inl error \<Rightarrow> (d, ErrorToast error)
             | Inr d' \<Rightarrow> (d', SuccessToast)))"

text \<open>\<open>handleRemovePhoto\<close> of the album page.\<close>

definition handleRemovePhoto ::
  "db \<Rightarrow> uuid \<Rightarrow> pg_error option \<Rightarrow> uuid option \<Rightarrow> uuid \<Rightarrow> db \<times> outcome" where
  "handleRemovePhoto d uid fault route_id photoId =
     (case route_id of
        None \<Rightarrow> (d, Returned)
      | Some aid \<Rightarrow>
          if aid = [] then (d, Returned)
          else
            (case request fault (Inr (delete_album_photo d uid aid photoId)) of
               Inl error \<Rightarrow> (d, ErrorToast error)
             | Inr d' \<Rightarrow> (d', SuccessToast)))"

subsection \<open>Statements on \<^verbatim>\<open>photos\<close> and \<^verbatim>\<open>albums\<close>\<close>

text \<open>
  \<^verbatim>\<open>order(column, { ascending: false })\<close>. Rows with equal keys may come in any order
  from the backend; here they come in the reverse of the stable ascending sort.
\<close>

definition order_desc :: "('a \<Rightarrow> timestamp) \<Rightarrow> 'a list \<Rightarrow> 'a list" where
  "order_desc key rows = rev (sort_key key rows)"

text \<open>\<^verbatim>\<open>value || null\<close> on a string: the empty string is falsy.\<close>

definition or_null :: "string \<Rightarrow> string option" where
  "or_null s = (if s = [] then None else Some s)"

text \<open>
  \<^verbatim>\<open>insert into photos (user_id, url, title, description)\<close>: the row passes the insert
  policy, enters the primary-key index and has its foreign key to \<^verbatim>\<open>auth.users\<close>
  checked.
\<close>

definition insert_photo ::
  "db \<Rightarrow> uuid \<Rightarrow> uuid \<Rightarrow> timestamp \<Rightarrow> uuid \<Rightarrow> string \<Rightarrow> string option \<Rightarrow> string option
     \<Rightarrow> pg_error + db" where
  "insert_photo d uid new_id now user_id url title description =
     (let row = \<lparr>photo_id = new_id, photo_user_id = user_id, photo_url = url,
                 photo_title = title, photo_description = description,
                 photo_created_at = now\<rparr> in
      if \<not> photos_insert_policy uid row then Inl RlsViolation
      else if new_id \<in> set (map photo_id (photos d)) then Inl UniqueViolation
      else if user_id \<notin> set (map auth_id (auth_users d)) then Inl ForeignKeyViolation
      else Inr (d\<lparr>photos := photos d @ [row]\<rparr>))"

text \<open>
  \<^verbatim>\<open>delete from photos where id = ..\<close>. The rows deleted are those with that id that
  the delete policy lets the session see; deleting no row is not an error. The foreign keys
  follow each deleted row: \<^verbatim>\<open>album_photos.photo_id\<close> is \<^verbatim>\<open>on delete cascade\<close>,
  \<^verbatim>\<open>albums.cover_photo_id\<close> is \<^verbatim>\<open>on delete set null\<close>. Both run with the rights of the
  table owner, not through the policies of the session.
\<close>

definition delete_photo :: "db \<Rightarrow> uuid \<Rightarrow> uuid \<Rightarrow> db" where
  "delete_photo d uid pid =
     (let hit = (\<lambda>p. photo_id p = pid \<and> photos_delete_policy uid p);
          deleted = map photo_id (filter hit (photos d)) in
      d\<lparr>photos := filter (\<lambda>p. \<not> hit p) (photos d),
        album_photos := filter (\<lambda>r. ap_photo_id r \<notin> set deleted) (album_photos d),
        albums := map (\<lambda>a. case cover_photo_id a of
                              None \<Rightarrow> a
                            | Some c \<Rightarrow> if c \<in> set deleted then a\<lparr>cover_photo_id := None\<rparr> else a)
                    (albums d)\<rparr>)"

text \<open>\<^verbatim>\<open>insert into albums (user_id, name, description)\<close>; \<^verbatim>\<open>cover_photo_id\<close> has no
  default and is null. \<^verbatim>\<open>name text not null\<close> refuses null only, and a \<open>string\<close> is
  never null.\<close>

definition insert_album ::
  "db \<Rightarrow> uuid \<Rightarrow> uuid \<Rightarrow> timestamp \<Rightarrow> uuid \<Rightarrow> string \<Rightarrow> string option \<Rightarrow> pg_error + db" where
  "insert_album d uid new_id now user_id name description =
     (let row = \<lparr>album_id = new_id, album_user_id = user_id, album_name = name,
                 album_description = description, cover_photo_id = None,
                 album_created_at = now\<rparr> in
      if \<not> albums_insert_policy uid row then Inl RlsViolation
      else if new_id \<in> set (map album_id (albums d)) then Inl UniqueViolation
      else if user_id \<notin> set (map auth_id (auth_users d)) then Inl ForeignKeyViolation
      else Inr (d\<lparr>albums := albums d @ [row]\<rparr>))"

text \<open>\<^verbatim>\<open>delete from albums where id = ..\<close>; \<^verbatim>\<open>album_photos.album_id\<close> is
  \<^verbatim>\<open>on delete cascade\<close>. No foreign key leads from an album to the photo rows.\<close>

definition delete_album :: "db \<Rightarrow> uuid \<Rightarrow> uuid \<Rightarrow> db" where
  "delete_album d uid aid =
     (let hit = (\<lambda>a. album_id a = aid \<and> albums_delete_policy uid a);
          deleted = map album_id (filter hit (albums d)) in
      d\<lparr>albums := filter (\<lambda>a. \<not> hit a) (albums d),
        album_photos := filter (\<lambda>r. ap_album_id r \<notin> set deleted) (album_photos d)\<rparr>)"

subsection \<open>The profile trigger\<close>

text \<open>
  \<open>handle_new_user\<close> runs \<^verbatim>\<open>insert into profiles (user_id, display_name) values (new.id, new.email)\<close>
  as \<^verbatim>\<open>security definer\<close>, so without the policies of the session. \<^verbatim>\<open>id\<close> and
  \<^verbatim>\<open>created_at\<close> take their defaults, \<^verbatim>\<open>avatar_url\<close> has none and is null. The row
  enters the primary-key index on \<^verbatim>\<open>id\<close> and the unique index on \<^verbatim>\<open>user_id\<close>, and
  its foreign key to \<^verbatim>\<open>auth.users\<close> is checked.
\<close>

definition handle_new_user :: "db \<Rightarrow> auth_user \<Rightarrow> uuid \<Rightarrow> timestamp \<Rightarrow> pg_error + db" where
  "handle_new_user d new new_id now =
     (let row = \<lparr>profile_id = new_id, profile_user_id = auth_id new,
                 display_name = auth_email new, avatar_url = None,
                 profile_created_at = now\<rparr> in
      if new_id \<in> set (map profile_id (profiles d)) then Inl UniqueViolation
      else if auth_id new \<in> set (map profile_user_id (profiles d)) then Inl UniqueViolation
      else if auth_id new \<notin> set (map auth_id (auth_users d)) then Inl ForeignKeyViolation
      else Inr (d\<lparr>profiles := profiles d @ [row]\<rparr>))"

text \<open>
  Account creation is an insert into \<^verbatim>\<open>auth.users\<close> (primary key \<^verbatim>\<open>id\<close>); the
  trigger \<^verbatim>\<open>on_auth_user_created\<close> runs \<open>handle_new_user\<close> after the insert, for the
  new row, in the same transaction: an error of the trigger undoes the insert.
\<close>

definition insert_auth_user :: "db \<Rightarrow> auth_user \<Rightarrow> uuid \<Rightarrow> timestamp \<Rightarrow> pg_error + db" where
  "insert_auth_user d new new_id now =
     (if auth_id new \<in> set (map auth_id (auth_users d)) then Inl UniqueViolation
      else handle_new_user (d\<lparr>auth_users := auth_users d @ [new]\<rparr>) new new_id now)"

text \<open>
  \<^verbatim>\<open>insert into profiles\<close> by a session, which the policy "Users can insert own profile"
  allows; no page does it.
\<close>

definition insert_profile :: "db \<Rightarrow> uuid \<Rightarrow> profile \<Rightarrow> pg_error + db" where
  "insert_profile d uid row =
     (if \<not> profiles_insert_policy uid row then Inl RlsViolation
      else if profile_id row \<in> set (map profile_id (profiles d)) then Inl UniqueViolation
      else if profile_user_id row \<in> set (map profile_user_id (profiles d))
        then Inl UniqueViolation
      else if profile_user_id row \<notin> set (map auth_id (auth_users d))
        then Inl ForeignKeyViolation
      else Inr (d\<lparr>profiles := profiles d @ [row]\<rparr>))"

text \<open>
  \<^verbatim>\<open>update profiles set .. where user_id = ..\<close>, as the profile page sends it: the
  columns set are \<^verbatim>\<open>display_name\<close> and \<^verbatim>\<open>avatar_url\<close> (\<open>None\<close>: the column is not in
  the update), on the rows the update policy lets the session see.
\<close>

definition update_profiles ::
  "db \<Rightarrow> uuid \<Rightarrow> uuid \<Rightarrow> string option option \<Rightarrow> string option option \<Rightarrow> db" where
  "update_profiles d uid user_id set_display_name set_avatar_url =
     d\<lparr>profiles :=
         map (\<lambda>p. if profiles_update_policy uid p \<and> profile_user_id p = user_id
                   then p\<lparr>display_name :=
                            (case set_display_name of None \<Rightarrow> display_name p | Some v \<Rightarrow> v),
                          avatar_url :=
                            (case set_avatar_url of None \<Rightarrow> avatar_url p | Some v \<Rightarrow> v)\<rparr>
                   else p)
           (profiles d)\<rparr>"

subsection \<open>Reading through the API: embedded rows\<close>

text \<open>
  A select can embed the rows a foreign key leads to. The embedded rows pass the select
  policy of their own table: \<^verbatim>\<open>photos(..)\<close> inside an \<^verbatim>\<open>album_photos\<close> row is the one
  photo with that id if the session may see it, and null otherwise;
  \<^verbatim>\<open>album_photos(..)\<close> inside an album is the list of its membership rows the session
  may see, in stored order.
\<close>

definition embed_photo :: "db \<Rightarrow> uuid \<Rightarrow> album_photo \<Rightarrow> photo option" where
  "embed_photo d uid r =
     find (\<lambda>p. photo_id p = ap_photo_id r \<and> photos_select_policy uid p) (photos d)"

definition embed_album_photos :: "db \<Rightarrow> uuid \<Rightarrow> album \<Rightarrow> album_photo list" where
  "embed_album_photos d uid a =
     filter (\<lambda>r. album_photos_select_policy d uid r \<and> ap_album_id r = album_id a)
       (album_photos d)"

text \<open>\<^verbatim>\<open>.filter(Boolean)\<close> on a list of objects and nulls keeps the objects.\<close>

fun filter_Boolean :: "'a option list \<Rightarrow> 'a list" where
  "filter_Boolean [] = []"
| "filter_Boolean (None # xs) = filter_Boolean xs"
| "filter_Boolean (Some x # xs) = x # filter_Boolean xs"

text \<open>\<^verbatim>\<open>.single()\<close>: the one row of the answer, an error for no row or several.\<close>

definition single :: "'a list \<Rightarrow> pg_error + 'a" where
  "single rows = (case rows of [r] \<Rightarrow> Inr r | _ \<Rightarrow> Inl NoSingleRow)"

subsection \<open>The home page: listing and deleting photos\<close>

text \<open>\<open>loadPhotos\<close>: \<open>Inl\<close> is the error toast (the list on screen stays), \<open>Inr\<close> the
  new list on screen.\<close>

definition loadPhotos :: "db \<Rightarrow> uuid \<Rightarrow> pg_error option \<Rightarrow> uuid \<Rightarrow> pg_error + photo list" where
  "loadPhotos d uid fault userId =
     request fault
       (Inr (order_desc photo_created_at
               (filter (\<lambda>p. photos_select_policy uid p \<and> photo_user_id p = userId)
                  (photos d))))"

text \<open>
  \<^verbatim>\<open>String.prototype.split\<close> with a non-empty separator: \<open>split_from\<close> scans the rest
  of the string with the piece read so far (reversed) in \<open>acc\<close>.
\<close>

fun split_from :: "string \<Rightarrow> string \<Rightarrow> string \<Rightarrow> string list" where
  "split_from sep acc [] = [rev acc]"
| "split_from sep acc (c # cs) =
     (if sep \<noteq> [] \<and> prefix sep (c # cs)
      then rev acc # split_from sep [] (drop (length sep - 1) cs)
      else split_from sep (c # acc) cs)"

definition split :: "string \<Rightarrow> string \<Rightarrow> string list" where
  "split sep s = split_from sep [] s"

text \<open>\<^verbatim>\<open>xs[1]\<close>: the second element, or undefined.\<close>

definition index1 :: "'a list \<Rightarrow> 'a option" where
  "index1 xs = (case xs of _ # y # _ \<Rightarrow> Some y | _ \<Rightarrow> None)"

text \<open>
  The bucket \<^verbatim>\<open>photos\<close> is the list of its object names. The delete policy of
  \<^verbatim>\<open>storage.objects\<close> compares \<^verbatim>\<open>auth.uid()\<close> with the first folder of the name
  (\<^verbatim>\<open>storage.foldername\<close> is the path without the file name). \<open>storage_remove\<close>
  answers with the bucket after the removal and the error of the request, if any.
\<close>

type_synonym storage = "string list"

definition storage_foldername :: "string \<Rightarrow> string list" where
  "storage_foldername name = butlast (split ''/'' name)"

definition storage_delete_policy :: "uuid \<Rightarrow> string \<Rightarrow> bool" where
  "storage_delete_policy uid name =
     (case storage_foldername name of [] \<Rightarrow> False | folder # _ \<Rightarrow> uid = folder)"

definition storage_remove ::
  "storage \<Rightarrow> uuid \<Rightarrow> pg_error option \<Rightarrow> string option list \<Rightarrow> storage \<times> pg_error option" where
  "storage_remove st uid fault paths =
     (case fault of
        Some e \<Rightarrow> (st, Some e)
      | None \<Rightarrow>
          (filter (\<lambda>name. \<not> (Some name \<in> set paths \<and> storage_delete_policy uid name)) st,
           None))"

text \<open>
  \<open>handleDelete\<close> of the home page. \<open>confirmed\<close> is the answer to the
  \<^verbatim>\<open>confirm\<close> dialog, \<open>storage_fault\<close> and \<open>fault\<close> the failures of the two requests.
  The answer of the storage request is awaited and not looked at. The reload that follows a
  success is \<open>loadPhotos\<close> on the database returned here.
\<close>

definition Home_handleDelete ::
  "db \<Rightarrow> storage \<Rightarrow> uuid \<Rightarrow> bool \<Rightarrow> pg_error option \<Rightarrow> pg_error option \<Rightarrow> uuid \<Rightarrow> string
     \<Rightarrow> db \<times> storage \<times> outcome" where
  "Home_handleDelete d st uid confirmed storage_fault fault photoId photoUrl =
     (if \<not> confirmed then (d, st, Returned)
      else
        (let path = index1 (split ''/photos/'' photoUrl);
             st' = fst (storage_remove st uid storage_fault [path]) in
         case request fault (Inr (delete_photo d uid photoId)) of
           Inl error \<Rightarrow> (d, st', ErrorToast error)
         | Inr d' \<Rightarrow> (d', st', SuccessToast)))"

subsection \<open>The albums page\<close>

text \<open>An album as the page keeps it: the row, and \<^verbatim>\<open>photos\<close>, the \<^verbatim>\<open>{ url }\<close>
  objects of its embedded membership rows.\<close>

record album_card =
  card_album :: album
  card_photos :: "string list"

definition loadAlbums ::
  "db \<Rightarrow> uuid \<Rightarrow> pg_error option \<Rightarrow> uuid \<Rightarrow> pg_error + album_card list" where
  "loadAlbums d uid fault userId =
     (case request fault
             (Inr (map (\<lambda>a. (a, map (\<lambda>r. map_option photo_url (embed_photo d uid r))
                                   (embed_album_photos d uid a)))
                     (order_desc album_created_at
                        (filter (\<lambda>a. albums_select_policy uid a \<and> album_user_id a = userId)
                           (albums d))))) of
        Inl error \<Rightarrow> Inl error
      | Inr data \<Rightarrow>
          Inr (map (\<lambda>(album, embedded).
                      \<lparr>card_album = album, card_photos = filter_Boolean embedded\<rparr>)
                 data))"

text \<open>The image of a card: \<^verbatim>\<open>album.photos[0].url\<close> if the list is not empty, the
  folder icon (\<open>None\<close>) otherwise. \<^verbatim>\<open>cover_photo_id\<close> is not read.\<close>

definition album_cover :: "album_card \<Rightarrow> string option" where
  "album_cover album = (case card_photos album of [] \<Rightarrow> None | url # _ \<Rightarrow> Some url)"

text \<open>\<open>handleCreate\<close>: \<open>user\<close> is the signed-in user of the page, whose session sends
  the insert; \<open>name\<close> and \<open>description\<close> are the form fields.\<close>

definition handleCreate ::
  "db \<Rightarrow> uuid option \<Rightarrow> uuid \<Rightarrow> timestamp \<Rightarrow> pg_error option \<Rightarrow> string \<Rightarrow> string
     \<Rightarrow> db \<times> outcome" where
  "handleCreate d user new_id now fault name description =
     (case user of
        None \<Rightarrow> (d, Returned)
      | Some uid \<Rightarrow>
          (case request fault (insert_album d uid new_id now uid name (or_null description)) of
             Inl error \<Rightarrow> (d, ErrorToast error)
           | Inr d' \<Rightarrow> (d', SuccessToast)))"

text \<open>
  The form of the dialog: \<^verbatim>\<open>onSubmit={handleCreate}\<close>, with the name in an input marked
  \<^verbatim>\<open>required\<close>. The browser does not submit a form whose required input is empty, so
  \<open>handleCreate\<close> is not called then.
\<close>

definition create_form_submit ::
  "db \<Rightarrow> uuid option \<Rightarrow> uuid \<Rightarrow> timestamp \<Rightarrow> pg_error option \<Rightarrow> string \<Rightarrow> string
     \<Rightarrow> db \<times> outcome" where
  "create_form_submit d user new_id now fault name description =
     (if name = [] then (d, Returned)
      else handleCreate d user new_id now fault name description)"

text \<open>\<open>handleDelete\<close> of the albums page; the reload that follows a success is
  \<open>loadAlbums\<close> on the database returned here.\<close>

definition Albums_handleDelete ::
  "db \<Rightarrow> uuid \<Rightarrow> bool \<Rightarrow> pg_error option \<Rightarrow> uuid \<Rightarrow> db \<times> outcome" where
  "Albums_handleDelete d uid confirmed fault albumId =
     (if \<not> confirmed then (d, Returned)
      else
        (case request fault (Inr (delete_album d uid albumId)) of
           Inl error \<Rightarrow> (d, ErrorToast error)
         | Inr d' \<Rightarrow> (d', SuccessToast)))"

subsection \<open>The album page: loading\<close>

text \<open>A photo as the album page keeps it: \<^verbatim>\<open>id, url, title\<close>.\<close>

record photo_view =
  pv_id :: uuid
  pv_url :: string
  pv_title :: "string option"

definition view :: "photo \<Rightarrow> photo_view" where
  "view p = \<lparr>pv_id = photo_id p, pv_url = photo_url p, pv_title = photo_title p\<rparr>"

text \<open>
  What \<open>loadAlbumData\<close> leaves: nothing without a route parameter (absent or empty), the error toast and
  the way back to the albums when the album does not load, and otherwise the album, the
  photos of the album and the photos that can be added.
\<close>

datatype album_data =
  NoRoute | AlbumError pg_error | AlbumData album "photo_view list" "photo_view list"

text \<open>
  The three requests of \<open>loadAlbumData\<close> have the faults \<open>fault1\<close>, \<open>fault2\<close>,
  \<open>fault3\<close>. Only the error of the first is looked at; a failed second or third request
  has null data, which \<^verbatim>\<open>?.\<close> and \<^verbatim>\<open>|| []\<close> turn into the empty list.
  \<open>albumPhotos\<close> is the list \<^verbatim>\<open>photos\<close> of the source. The select on
  \<^verbatim>\<open>album_photos\<close> has no \<^verbatim>\<open>order\<close>.
\<close>

definition loadAlbumData ::
  "db \<Rightarrow> uuid \<Rightarrow> pg_error option \<Rightarrow> pg_error option \<Rightarrow> pg_error option \<Rightarrow> uuid option \<Rightarrow> uuid
     \<Rightarrow> album_data" where
  "loadAlbumData d uid fault1 fault2 fault3 route_id userId =
     (case route_id of
        None \<Rightarrow> NoRoute
      | Some aid \<Rightarrow>
          if aid = [] then NoRoute
          else
          (case request fault1
                  (single (filter (\<lambda>a. albums_select_policy uid a \<and>
                                        album_id a = aid \<and> album_user_id a = userId)
                             (albums d))) of
             Inl albumError \<Rightarrow> AlbumError albumError
           | Inr albumData \<Rightarrow>
               (let photosData =
                      request fault2
                        (Inr (map (\<lambda>r. map_option view (embed_photo d uid r))
                                (filter (\<lambda>r. album_photos_select_policy d uid r \<and>
                                              ap_album_id r = aid)
                                   (album_photos d))));
                    albumPhotos = (case photosData of
                                Inl _ \<Rightarrow> []
                              | Inr rows \<Rightarrow> filter_Boolean rows);
                    allPhotos =
                      request fault3
                        (Inr (map view
                                (filter (\<lambda>p. photos_select_policy uid p \<and>
                                              photo_user_id p = userId)
                                   (photos d))));
                    photosInAlbum = set (map pv_id albumPhotos);
                    available = (case allPhotos of
                                   Inl _ \<Rightarrow> []
                                 | Inr ps \<Rightarrow> filter (\<lambda>p. pv_id p \<notin> photosInAlbum) ps)
                in AlbumData albumData albumPhotos available)))"

section \<open>Reachable databases and their constraints\<close>

text \<open>
  The databases the system can be in: the empty one, and every one a statement above
  leaves when it succeeds, for any session and any arguments. Signing in inserts nothing
  into \<^verbatim>\<open>auth.users\<close>, so it fires no trigger and is no step.
\<close>

definition empty_db :: db where
  "empty_db = \<lparr>auth_users = [], profiles = [], photos = [], albums = [], album_photos = []\<rparr>"

inductive reachable :: "db \<Rightarrow> bool" where
  start: "reachable empty_db"
| signup: "reachable d \<Longrightarrow> insert_auth_user d new new_id now = Inr d' \<Longrightarrow> reachable d'"
| profile_insert: "reachable d \<Longrightarrow> insert_profile d uid row = Inr d' \<Longrightarrow> reachable d'"
| profile_update: "reachable d \<Longrightarrow> reachable (update_profiles d uid user_id sn sa)"
| photo_insert:
    "reachable d \<Longrightarrow> insert_photo d uid new_id now user_id url title description = Inr d'
       \<Longrightarrow> reachable d'"
| photo_delete: "reachable d \<Longrightarrow> reachable (delete_photo d uid pid)"
| album_insert:
    "reachable d \<Longrightarrow> insert_album d uid new_id now user_id name description = Inr d'
       \<Longrightarrow> reachable d'"
| album_delete: "reachable d \<Longrightarrow> reachable (delete_album d uid aid)"
| member_insert: "reachable d \<Longrightarrow> insert_album_photos d uid now rows = Inr d' \<Longrightarrow> reachable d'"
| member_delete: "reachable d \<Longrightarrow> reachable (delete_album_photo d uid aid pid)"

text \<open>The primary keys and the unique constraint of the schema, as a property of a
  database.\<close>

definition unique_keys :: "db \<Rightarrow> bool" where
  "unique_keys d =
     (distinct (map auth_id (auth_users d)) \<and>
      distinct (map profile_id (profiles d)) \<and>
      distinct (map profile_user_id (profiles d)) \<and>
      distinct (map photo_id (photos d)) \<and>
      distinct (map album_id (albums d)) \<and>
      distinct (map (\<lambda>r. (ap_album_id r, ap_photo_id r)) (album_photos d)))"

text \<open>The keys are unique, and the users with a profile row are the users of
  \<^verbatim>\<open>auth.users\<close>.\<close>

definition profile_inv :: "db \<Rightarrow> bool" where
  "profile_inv d =
     (unique_keys d \<and>
      set (map profile_user_id (profiles d)) = set (map auth_id (auth_users d)))"

text \<open>The profile rows of a user.\<close>

definition profiles_of :: "db \<Rightarrow> uuid \<Rightarrow> profile list" where
  "profiles_of d user_id = filter (\<lambda>p. profile_user_id p = user_id) (profiles d)"

section \<open>The listing contracts, as the specification words them\<close>

text \<open>
  \<open>spec_listAlbumPhotos\<close> follows the words "all Photos currently members of the album,
  in membership order (most recently added photo first)": the member ids by descending
  \<^verbatim>\<open>added_at\<close>.
\<close>

definition spec_listAlbumPhotos :: "db \<Rightarrow> uuid \<Rightarrow> uuid list" where
  "spec_listAlbumPhotos d aid =
     map ap_photo_id (order_desc added_at (filter (\<lambda>r. ap_album_id r = aid) (album_photos d)))"

definition url_of :: "db \<Rightarrow> uuid \<Rightarrow> string option" where
  "url_of d pid = map_option photo_url (find (\<lambda>p. photo_id p = pid) (photos d))"

text \<open>
  \<open>spec_cover\<close> follows the words "the photo referenced by cover_photo_id if set and
  still a member, else the most-recently-added member photo, else none".
\<close>

definition spec_cover :: "db \<Rightarrow> album \<Rightarrow> string option" where
  "spec_cover d a =
     (let most_recent = (case spec_listAlbumPhotos d (album_id a) of
                           [] \<Rightarrow> None
                         | pid # _ \<Rightarrow> url_of d pid) in
      case cover_photo_id a of
        None \<Rightarrow> most_recent
      | Some c \<Rightarrow> if is_member d (album_id a) c then url_of d c else most_recent)"

section \<open>A database to run the operations on\<close>

text \<open>Two users with their profiles; three photos of the first user and one of the
  second; two albums of the first user, both empty.\<close>

definition ana :: auth_user where
  "ana = \<lparr>auth_id = ''u1'', auth_email = Some ''ana@x.org''\<rparr>"

definition bob :: auth_user where
  "bob = \<lparr>auth_id = ''u2'', auth_email = Some ''bob@x.org''\<rparr>"

definition mk_photo :: "uuid \<Rightarrow> uuid \<Rightarrow> string \<Rightarrow> timestamp \<Rightarrow> photo" where
  "mk_photo pid user_id url t =
     \<lparr>photo_id = pid, photo_user_id = user_id, photo_url = url, photo_title = None,
      photo_description = None, photo_created_at = t\<rparr>"

definition trip :: album where
  "trip = \<lparr>album_id = ''a1'', album_user_id = ''u1'', album_name = ''Trip'',
           album_description = None, cover_photo_id = None, album_created_at = 20\<rparr>"

definition home :: album where
  "home = \<lparr>album_id = ''a2'', album_user_id = ''u1'', album_name = ''Home'',
           album_description = None, cover_photo_id = None, album_created_at = 21\<rparr>"

definition ex_db :: db where
  "ex_db =
     \<lparr>auth_users = [ana, bob],
      profiles =
        [\<lparr>profile_id = ''r1'', profile_user_id = ''u1'', display_name = Some ''ana@x.org'',
          avatar_url = None, profile_created_at = 1\<rparr>,
         \<lparr>profile_id = ''r2'', profile_user_id = ''u2'', display_name = Some ''bob@x.org'',
          avatar_url = None, profile_created_at = 2\<rparr>],
      photos =
        [mk_photo ''p1'' ''u1'' ''h/photos/u1/1.jpg'' 10,
         mk_photo ''p2'' ''u1'' ''h/photos/u1/2.jpg'' 11,
         mk_photo ''p3'' ''u1'' ''h/photos/u1/3.jpg'' 12,
         mk_photo ''q1'' ''u2'' ''h/photos/u2/1.jpg'' 13],
      albums = [trip, home],
      album_photos = []\<rparr>"

definition mk_member :: "uuid \<Rightarrow> uuid \<Rightarrow> timestamp \<Rightarrow> album_photo" where
  "mk_member aid pid t = \<lparr>ap_album_id = aid, ap_photo_id = pid, added_at = t\<rparr>"

text \<open>\<open>ex_db\<close> after \<open>p1\<close> and \<open>p2\<close> were added to the album \<open>a1\<close> at time 30.\<close>

definition ex_db_added :: db where
  "ex_db_added = ex_db\<lparr>album_photos := [mk_member ''a1'' ''p1'' 30, mk_member ''a1'' ''p2'' 30]\<rparr>"

text \<open>\<open>ex_db\<close> after \<open>p1\<close> was added to \<open>a1\<close> at time 30 and \<open>p2\<close> at time 31.\<close>

definition ex_db_two :: db where
  "ex_db_two = ex_db\<lparr>album_photos := [mk_member ''a1'' ''p1'' 30, mk_member ''a1'' ''p2'' 31]\<rparr>"

definition ex_storage :: storage where
  "ex_storage = [''u1/1.jpg'', ''u1/2.jpg'', ''u1/3.jpg'', ''u2/1.jpg'']"

text \<open>\<open>ex_db_two\<close> with \<open>p1\<close> as the cover of \<open>a1\<close>, and the same after \<open>u1\<close> deleted
  \<open>p1\<close>.\<close>

definition ex_db_cover :: db where
  "ex_db_cover = ex_db_two\<lparr>albums := [trip\<lparr>cover_photo_id := Some ''p1''\<rparr>, home]\<rparr>"

definition ex_db_deleted :: db where
  "ex_db_deleted =
     ex_db\<lparr>photos := [mk_photo ''p2'' ''u1'' ''h/photos/u1/2.jpg'' 11,
                      mk_photo ''p3'' ''u1'' ''h/photos/u1/3.jpg'' 12,
                      mk_photo ''q1'' ''u2'' ''h/photos/u2/1.jpg'' 13],
           album_photos := [mk_member ''a1'' ''p2'' 31]\<rparr>"

section \<open>Adding photos to an album\<close>

lemmas ex_defs =
  ex_db_def ex_db_added_def ex_db_two_def ex_db_cover_def ex_db_deleted_def ex_storage_def
  empty_db_def
  ana_def bob_def trip_def home_def mk_photo_def mk_member_def

lemma owns_album_ap_update [simp]:
  "owns_album (d\<lparr>album_photos := rs\<rparr>) uid aid = owns_album d uid aid"
  by (simp add: owns_album_def)

lemma owns_album_id: "owns_album d uid aid \<Longrightarrow> aid \<in> set (map album_id (albums d))"
  by (auto simp: owns_album_def list_ex_iff)

lemma is_member_append:
  "is_member (d\<lparr>album_photos := album_photos d @ [r]\<rparr>) aid pid =
     (is_member d aid pid \<or> (ap_album_id r = aid \<and> ap_photo_id r = pid))"
  by (auto simp: is_member_def list_ex_iff)

lemma insert_rows_fresh:
  "owns_album d uid aid \<Longrightarrow> distinct ps \<Longrightarrow> \<forall>p\<in>set ps. \<not> is_member d aid p \<Longrightarrow>
   insert_album_photos_rows d uid now (map (\<lambda>photoId. (aid, photoId)) ps) =
     Inr (d\<lparr>album_photos := album_photos d @ map (\<lambda>p. mk_member aid p now) ps\<rparr>)"
proof (induction ps arbitrary: d)
  case Nil
  then show ?case by simp
next
  case (Cons p ps)
  let ?d = "d\<lparr>album_photos := album_photos d @ [mk_member aid p now]\<rparr>"
  have "owns_album ?d uid aid"
    using Cons.prems(1) by simp
  moreover have "distinct ps"
    using Cons.prems(2) by simp
  moreover have "\<forall>q\<in>set ps. \<not> is_member ?d aid q"
    using Cons.prems(2,3) by (auto simp: is_member_append mk_member_def)
  ultimately have
    "insert_album_photos_rows ?d uid now (map (\<lambda>photoId. (aid, photoId)) ps) =
       Inr (?d\<lparr>album_photos := album_photos ?d @ map (\<lambda>p. mk_member aid p now) ps\<rparr>)"
    by (rule Cons.IH)
  then show ?case
    using Cons.prems(1,3) by (simp add: album_photos_insert_policy_def mk_member_def)
qed

lemma insert_rows_duplicate:
  "owns_album d uid aid \<Longrightarrow> \<not> distinct ps \<or> (\<exists>p\<in>set ps. is_member d aid p) \<Longrightarrow>
   insert_album_photos_rows d uid now (map (\<lambda>photoId. (aid, photoId)) ps) =
     Inl UniqueViolation"
proof (induction ps arbitrary: d)
  case Nil
  then show ?case by simp
next
  case (Cons p ps)
  show ?case
  proof (cases "is_member d aid p")
    case True
    then show ?thesis
      using Cons.prems(1) by (simp add: album_photos_insert_policy_def)
  next
    case False
    let ?d = "d\<lparr>album_photos :=
                  album_photos d @ [\<lparr>ap_album_id = aid, ap_photo_id = p, added_at = now\<rparr>]\<rparr>"
    have "owns_album ?d uid aid"
      using Cons.prems(1) by simp
    moreover have "\<not> distinct ps \<or> (\<exists>q\<in>set ps. is_member ?d aid q)"
      using Cons.prems(2) False by (auto simp: is_member_append)
    ultimately have
      "insert_album_photos_rows ?d uid now (map (\<lambda>photoId. (aid, photoId)) ps) =
         Inl UniqueViolation"
      by (rule Cons.IH)
    then show ?thesis
      using Cons.prems(1) False by (simp add: album_photos_insert_policy_def)
  qed
qed

lemma insert_album_photos_fresh:
  assumes "owns_album d uid aid" and "set ps \<subseteq> set (map photo_id (photos d))"
    and "distinct ps" and "\<forall>p\<in>set ps. \<not> is_member d aid p"
  shows "insert_album_photos d uid now (map (\<lambda>photoId. (aid, photoId)) ps) =
     Inr (d\<lparr>album_photos := album_photos d @ map (\<lambda>p. mk_member aid p now) ps\<rparr>)"
proof -
  have "list_all
          (album_photos_fkeys
             (d\<lparr>album_photos := album_photos d @ map (\<lambda>p. mk_member aid p now) ps\<rparr>))
          (map (\<lambda>photoId. (aid, photoId)) ps)"
    using assms(2) owns_album_id [OF assms(1)]
    by (auto simp: list_all_iff album_photos_fkeys_def)
  then show ?thesis
    using insert_rows_fresh [OF assms(1,3,4)] by (simp add: insert_album_photos_def)
qed

lemma album_members_append:
  "album_members (d\<lparr>album_photos := album_photos d @ map (\<lambda>p. mk_member aid p now) ps\<rparr>) aid' =
     album_members d aid' @ (if aid' = aid then ps else [])"
  by (induction ps) (auto simp: album_members_def mk_member_def)

text \<open>
  C1, as the code has it. The owner of album \<open>aid\<close> adds the existing photos \<open>ps\<close>
  (a non-empty selection). If the ids are pairwise different and none is a member yet, the
  call succeeds and appends exactly one membership row per id, in the order of the
  selection. If an id is already a member (or occurs twice), the insert is not a silent
  no-op: the whole call is answered with a unique violation, shown as the error toast, and
  the database is unchanged, so none of the other ids is added either.
\<close>

theorem addPhotos_inserts_or_rejects:
  assumes "owns_album d uid aid"
    and "set ps \<subseteq> set (map photo_id (photos d))"
    and "ps \<noteq> []" and "aid \<noteq> []"
  shows "(distinct ps \<and> (\<forall>p\<in>set ps. \<not> is_member d aid p) \<longrightarrow>
            (\<exists>d'. handleAddPhotos d uid now None (Some aid) ps = (d', SuccessToast) \<and>
                  album_photos d' = album_photos d @ map (\<lambda>p. mk_member aid p now) ps \<and>
                  album_members d' aid = album_members d aid @ ps)) \<and>
         (\<not> distinct ps \<or> (\<exists>p\<in>set ps. is_member d aid p) \<longrightarrow>
            handleAddPhotos d uid now None (Some aid) ps = (d, ErrorToast UniqueViolation))"
proof (intro conjI impI)
  assume fresh: "distinct ps \<and> (\<forall>p\<in>set ps. \<not> is_member d aid p)"
  let ?d' = "d\<lparr>album_photos := album_photos d @ map (\<lambda>p. mk_member aid p now) ps\<rparr>"
  have "insert_album_photos d uid now (map (\<lambda>photoId. (aid, photoId)) ps) = Inr ?d'"
    using insert_album_photos_fresh [OF assms(1,2)] fresh by blast
  then have "handleAddPhotos d uid now None (Some aid) ps = (?d', SuccessToast)"
    using assms(3,4) by (simp add: handleAddPhotos_def request_def)
  moreover have "album_members ?d' aid = album_members d aid @ ps"
    by (simp add: album_members_append)
  ultimately show "\<exists>d'. handleAddPhotos d uid now None (Some aid) ps = (d', SuccessToast) \<and>
      album_photos d' = album_photos d @ map (\<lambda>p. mk_member aid p now) ps \<and>
      album_members d' aid = album_members d aid @ ps"
    by simp
next
  assume dup: "\<not> distinct ps \<or> (\<exists>p\<in>set ps. is_member d aid p)"
  have "insert_album_photos_rows d uid now (map (\<lambda>photoId. (aid, photoId)) ps) =
          Inl UniqueViolation"
    using insert_rows_duplicate [OF assms(1) dup] .
  then show "handleAddPhotos d uid now None (Some aid) ps = (d, ErrorToast UniqueViolation)"
    using assms(3,4) by (simp add: handleAddPhotos_def request_def insert_album_photos_def)
qed

theorem addPhotos_inserts_or_rejects_witness:
  "(\<exists>d'. handleAddPhotos ex_db ''u1'' 30 None (Some ''a1'') [''p1'', ''p2''] = (d', SuccessToast) \<and>
         album_members d' ''a1'' = [''p1'', ''p2'']) \<and>
   handleAddPhotos ex_db_added ''u1'' 31 None (Some ''a1'') [''p1'', ''p3''] =
     (ex_db_added, ErrorToast UniqueViolation)"
proof -
  have own: "owns_album ex_db ''u1'' ''a1''" "owns_album ex_db_added ''u1'' ''a1''"
    by (simp_all add: owns_album_def ex_defs)
  have ids: "set [''p1'', ''p2''] \<subseteq> set (map photo_id (photos ex_db))"
    "set [''p1'', ''p3''] \<subseteq> set (map photo_id (photos ex_db_added))"
    by (simp_all add: ex_defs)
  have fresh: "distinct [''p1'', ''p2''] \<and>
      (\<forall>p\<in>set [''p1'', ''p2'']. \<not> is_member ex_db ''a1'' p)"
    by (simp add: is_member_def ex_defs)
  have dup: "\<not> distinct [''p1'', ''p3''] \<or>
      (\<exists>p\<in>set [''p1'', ''p3'']. is_member ex_db_added ''a1'' p)"
    by (simp add: is_member_def ex_defs)
  have none: "album_members ex_db ''a1'' = []"
    by (simp add: album_members_def ex_defs)
  have ne: "[''p1'', ''p2''] \<noteq> []" "[''p1'', ''p3''] \<noteq> []" "''a1'' \<noteq> []"
    by simp_all
  from addPhotos_inserts_or_rejects [OF own(1) ids(1) ne(1,3), of 30] fresh none
  have "\<exists>d'. handleAddPhotos ex_db ''u1'' 30 None (Some ''a1'') [''p1'', ''p2''] =
           (d', SuccessToast) \<and> album_members d' ''a1'' = [''p1'', ''p2'']"
    by auto
  moreover from addPhotos_inserts_or_rejects [OF own(2) ids(2) ne(2,3), of 31] dup
  have "handleAddPhotos ex_db_added ''u1'' 31 None (Some ''a1'') [''p1'', ''p3''] =
          (ex_db_added, ErrorToast UniqueViolation)"
    by blast
  ultimately show ?thesis by simp
qed

text \<open>
  C1 as the specification words it fails: after \<open>p1\<close> and \<open>p2\<close> were added to album
  \<open>a1\<close>, adding \<open>p1\<close> and \<open>p3\<close> is answered with the unique violation, and the
  members are still \<open>p1\<close> and \<open>p2\<close>, without \<open>p3\<close>.
\<close>

theorem addPhotos_duplicate_counterexample:
  "handleAddPhotos ex_db ''u1'' 30 None (Some ''a1'') [''p1'', ''p2''] =
     (ex_db_added, SuccessToast) \<and>
   handleAddPhotos ex_db_added ''u1'' 31 None (Some ''a1'') [''p1'', ''p3''] =
     (ex_db_added, ErrorToast UniqueViolation) \<and>
   album_members ex_db_added ''a1'' = [''p1'', ''p2'']"
  by (simp add: handleAddPhotos_def request_def insert_album_photos_def
      album_photos_insert_policy_def owns_album_def is_member_def album_photos_fkeys_def
      album_members_def ex_defs)

lemma insert_rows_rls:
  "\<not> owns_album d uid aid \<Longrightarrow>
   insert_album_photos d uid now [(aid, pid)] = Inl RlsViolation"
  by (simp add: insert_album_photos_def album_photos_insert_policy_def)

text \<open>
  C2, as the code has it. The insert policy of \<^verbatim>\<open>album_photos\<close> looks at the album
  only. A caller who owns album \<open>aid\<close> adds any existing photo that is not a member yet,
  whoever owns the photo: the row is inserted and the success toast shown. A caller who does
  not own the album is refused with a row-level-security violation, and nothing is inserted.
\<close>

theorem addPhotos_checks_album_owner_only:
  assumes "aid \<noteq> []"
  shows "(owns_album d uid aid \<and> pid \<in> set (map photo_id (photos d)) \<and> \<not> is_member d aid pid \<longrightarrow>
      handleAddPhotos d uid now None (Some aid) [pid] =
        (d\<lparr>album_photos := album_photos d @ [mk_member aid pid now]\<rparr>, SuccessToast)) \<and>
   (\<not> owns_album d uid aid \<longrightarrow>
      handleAddPhotos d uid now None (Some aid) [pid] = (d, ErrorToast RlsViolation))"
proof (intro conjI impI)
  assume a: "owns_album d uid aid \<and> pid \<in> set (map photo_id (photos d)) \<and> \<not> is_member d aid pid"
  then have "insert_album_photos d uid now (map (\<lambda>photoId. (aid, photoId)) [pid]) =
     Inr (d\<lparr>album_photos := album_photos d @ map (\<lambda>p. mk_member aid p now) [pid]\<rparr>)"
    by (intro insert_album_photos_fresh) simp_all
  then show "handleAddPhotos d uid now None (Some aid) [pid] =
        (d\<lparr>album_photos := album_photos d @ [mk_member aid pid now]\<rparr>, SuccessToast)"
    using assms by (simp add: handleAddPhotos_def request_def)
next
  assume "\<not> owns_album d uid aid"
  then show "handleAddPhotos d uid now None (Some aid) [pid] = (d, ErrorToast RlsViolation)"
    using assms by (simp add: handleAddPhotos_def request_def insert_rows_rls)
qed

theorem addPhotos_checks_album_owner_only_witness:
  "handleAddPhotos ex_db ''u1'' 30 None (Some ''a1'') [''q1''] =
        (ex_db\<lparr>album_photos := album_photos ex_db @ [mk_member ''a1'' ''q1'' 30]\<rparr>, SuccessToast) \<and>
   handleAddPhotos ex_db ''u2'' 30 None (Some ''a1'') [''q1''] = (ex_db, ErrorToast RlsViolation)"
proof -
  have 1: "owns_album ex_db ''u1'' ''a1'' \<and> ''q1'' \<in> set (map photo_id (photos ex_db)) \<and>
     \<not> is_member ex_db ''a1'' ''q1''"
    by (simp add: owns_album_def is_member_def ex_defs)
  have 2: "\<not> owns_album ex_db ''u2'' ''a1''"
    by (simp add: owns_album_def ex_defs)
  have 3: "''a1'' \<noteq> []"
    by simp
  show ?thesis
    using addPhotos_checks_album_owner_only [OF 3, of ex_db "''u1''" "''q1''" 30]
      addPhotos_checks_album_owner_only [OF 3, of ex_db "''u2''" "''q1''" 30] 1 2
    by blast
qed

text \<open>
  C2 as the specification words it fails: \<open>u1\<close> owns album \<open>a1\<close>, photo \<open>q1\<close>
  belongs to \<open>u2\<close>, and adding \<open>q1\<close> to \<open>a1\<close> succeeds and makes it a member.
\<close>

theorem addPhotos_foreign_photo_counterexample:
  "owns_album ex_db ''u1'' ''a1'' \<and>
   map photo_user_id (filter (\<lambda>p. photo_id p = ''q1'') (photos ex_db)) = [''u2''] \<and>
   handleAddPhotos ex_db ''u1'' 30 None (Some ''a1'') [''q1''] =
        (ex_db\<lparr>album_photos := [mk_member ''a1'' ''q1'' 30]\<rparr>, SuccessToast) \<and>
   is_member (fst (handleAddPhotos ex_db ''u1'' 30 None (Some ''a1'') [''q1''])) ''a1'' ''q1''"
  by (simp add: handleAddPhotos_def request_def insert_album_photos_def
      album_photos_insert_policy_def owns_album_def is_member_def album_photos_fkeys_def
      ex_defs)

section \<open>The photos of an album and the photos that can be added\<close>

lemma set_filter_Boolean: "set (filter_Boolean xs) = {x. Some x \<in> set xs}"
  by (induction xs rule: filter_Boolean.induct) auto

lemma filter_key_single:
  "distinct (map f xs) \<Longrightarrow> a \<in> set xs \<Longrightarrow>
   filter (\<lambda>x. f x = f a \<and> P x) xs = (if P a then [a] else [])"
proof (induction xs)
  case Nil
  then show ?case by simp
next
  case (Cons x xs)
  show ?case
  proof (cases "x = a")
    case True
    have "f a \<notin> f ` set xs" using Cons.prems(1) True by simp
    then have "\<forall>y\<in>set xs. f y \<noteq> f a" by (metis imageI)
    then have "filter (\<lambda>x. f x = f a \<and> P x) xs = []" by (simp add: filter_empty_conv)
    then show ?thesis using True by simp
  next
    case False
    then have "a \<in> set xs" using Cons.prems(2) by simp
    moreover have "f x \<noteq> f a" using Cons.prems(1) \<open>a \<in> set xs\<close> by (metis distinct.simps(2) imageI list.simps(9) set_map)
    ultimately show ?thesis using Cons by simp
  qed
qed

lemma embed_photo_Some:
  "embed_photo d uid r = Some p \<Longrightarrow>
     p \<in> set (photos d) \<and> photo_id p = ap_photo_id r \<and> photo_user_id p = uid"
  by (auto simp: embed_photo_def find_Some_iff photos_select_policy_def)

lemma ex_unique_keys:
  "unique_keys ex_db" "unique_keys ex_db_added" "unique_keys ex_db_two"
  "unique_keys ex_db_cover" "unique_keys ex_db_deleted"
  by (simp_all add: unique_keys_def ex_defs)

text \<open>
  The complement when none of the three requests fails. In a database whose keys are
  unique, for an album \<open>a\<close> of \<open>owner\<close>, \<open>loadAlbumData\<close> answers with the album,
  its photos \<open>ps\<close> and the available photos \<open>av\<close>: the two lists share no photo,
  together they are all photos of \<open>owner\<close>, and \<open>av\<close> is exactly the photos of
  \<open>owner\<close> that are not members of the album.
\<close>

theorem available_is_complement:
  assumes "unique_keys d" and "a \<in> set (albums d)" and "album_user_id a = owner"
    and "album_id a \<noteq> []"
  shows "\<exists>ps av. loadAlbumData d owner None None None (Some (album_id a)) owner = AlbumData a ps av \<and>
           set av \<inter> set ps = {} \<and>
           set av \<union> set ps = view ` {p \<in> set (photos d). photo_user_id p = owner} \<and>
           set av = view ` {p \<in> set (photos d).
                              photo_user_id p = owner \<and> \<not> is_member d (album_id a) (photo_id p)}"
proof -
  let ?aid = "album_id a"
  define ps where "ps = filter_Boolean (map (\<lambda>r. map_option view (embed_photo d owner r))
         (filter (\<lambda>r. album_photos_select_policy d owner r \<and> ap_album_id r = ?aid) (album_photos d)))"
  define av where "av = filter (\<lambda>p. pv_id p \<notin> set (map pv_id ps))
     (map view (filter (\<lambda>p. photos_select_policy owner p \<and> photo_user_id p = owner) (photos d)))"
  have da: "distinct (map album_id (albums d))" and dp: "distinct (map photo_id (photos d))"
    using assms(1) by (simp_all add: unique_keys_def)
  have "filter (\<lambda>a'. album_id a' = album_id a \<and> (albums_select_policy owner a' \<and> album_user_id a' = owner)) (albums d) = [a]"
    using filter_key_single [OF da assms(2), of "\<lambda>a'. albums_select_policy owner a' \<and> album_user_id a' = owner"] assms(3)
    by (simp add: albums_select_policy_def)
  then have single: "single (filter (\<lambda>a'. albums_select_policy owner a' \<and> album_id a' = ?aid \<and> album_user_id a' = owner) (albums d)) = Inr a"
    by (simp add: single_def conj_ac cong: conj_cong)
  have load: "loadAlbumData d owner None None None (Some ?aid) owner = AlbumData a ps av"
    using single assms(4) by (simp add: loadAlbumData_def request_def ps_def av_def Let_def)
  have sub: "set ps \<subseteq> view ` {p \<in> set (photos d). photo_user_id p = owner}"
  proof
    fix v assume "v \<in> set ps"
    then obtain r where "Some v = map_option view (embed_photo d owner r)"
      by (auto simp: ps_def set_filter_Boolean)
    then obtain p where "embed_photo d owner r = Some p" "v = view p"
      by (cases "embed_photo d owner r") auto
    then show "v \<in> view ` {p \<in> set (photos d). photo_user_id p = owner}"
      using embed_photo_Some by blast
  qed
  have inter: "set av \<inter> set ps = {}"
    by (auto simp: av_def)
  have "set av \<union> set ps = view ` {p \<in> set (photos d). photo_user_id p = owner}"
  proof
    show "set av \<union> set ps \<subseteq> view ` {p \<in> set (photos d). photo_user_id p = owner}"
      using sub by (auto simp: av_def)
  next
    show "view ` {p \<in> set (photos d). photo_user_id p = owner} \<subseteq> set av \<union> set ps"
    proof
      fix v assume "v \<in> view ` {p \<in> set (photos d). photo_user_id p = owner}"
      then obtain p where p: "p \<in> set (photos d)" "photo_user_id p = owner" "v = view p" by auto
      show "v \<in> set av \<union> set ps"
      proof (cases "pv_id v \<in> set (map pv_id ps)")
        case True
        then obtain v' where v': "v' \<in> set ps" "pv_id v' = pv_id v" by auto
        then obtain p' where p': "p' \<in> set (photos d)" "v' = view p'" using sub by auto
        have "photo_id p' = photo_id p" using v' p' p by (simp add: view_def)
        then have "p' = p" using dp p(1) p'(1) by (meson distinct_map inj_onD)
        then show ?thesis using v' p' p by simp
      next
        case False
        then show ?thesis using p by (auto simp: av_def photos_select_policy_def)
      qed
    qed
  qed
  moreover have "set av = view ` {p \<in> set (photos d).
      photo_user_id p = owner \<and> \<not> is_member d ?aid (photo_id p)}"
  proof -
    have own: "owns_album d owner ?aid"
      using assms(2,3) by (auto simp: owns_album_def list_ex_iff)
    have mem: "photo_id p \<in> set (map pv_id ps) \<longleftrightarrow> is_member d ?aid (photo_id p)"
      if p: "p \<in> set (photos d)" "photo_user_id p = owner" for p
    proof
      assume "photo_id p \<in> set (map pv_id ps)"
      then obtain v where v: "v \<in> set ps" "pv_id v = photo_id p" by auto
      then obtain r where r: "r \<in> set (album_photos d)" "ap_album_id r = ?aid"
          "Some v = map_option view (embed_photo d owner r)"
        by (auto simp: ps_def set_filter_Boolean)
      then obtain q where q: "embed_photo d owner r = Some q" "v = view q"
        by (cases "embed_photo d owner r") auto
      then have "ap_photo_id r = photo_id p"
        using embed_photo_Some [OF q(1)] v(2) by (simp add: view_def)
      then show "is_member d ?aid (photo_id p)"
        using r(1,2) by (auto simp: is_member_def list_ex_iff)
    next
      assume "is_member d ?aid (photo_id p)"
      then obtain r where r: "r \<in> set (album_photos d)" "ap_album_id r = ?aid"
          "ap_photo_id r = photo_id p"
        by (auto simp: is_member_def list_ex_iff)
      have "\<exists>q. embed_photo d owner r = Some q"
        using p r(3)
        by (cases "embed_photo d owner r")
           (auto simp: embed_photo_def find_None_iff photos_select_policy_def)
      then obtain q where q: "embed_photo d owner r = Some q" by blast
      then have "view q \<in> set ps"
        using r(1,2) own
        by (force simp: ps_def set_filter_Boolean album_photos_select_policy_def)
      moreover have "pv_id (view q) = photo_id p"
        using embed_photo_Some [OF q] r(3) by (simp add: view_def)
      ultimately show "photo_id p \<in> set (map pv_id ps)"
        by force
    qed
    show ?thesis
    proof
      show "set av \<subseteq> view ` {p \<in> set (photos d).
          photo_user_id p = owner \<and> \<not> is_member d ?aid (photo_id p)}"
      proof
        fix v assume "v \<in> set av"
        then obtain p where p: "p \<in> set (photos d)" "photo_user_id p = owner" "v = view p"
            "pv_id v \<notin> set (map pv_id ps)"
          by (auto simp: av_def)
        then have "\<not> is_member d ?aid (photo_id p)"
          using mem [OF p(1,2)] by (simp add: view_def)
        then show "v \<in> view ` {p \<in> set (photos d).
          photo_user_id p = owner \<and> \<not> is_member d ?aid (photo_id p)}"
          using p by blast
      qed
    next
      show "view ` {p \<in> set (photos d).
          photo_user_id p = owner \<and> \<not> is_member d ?aid (photo_id p)} \<subseteq> set av"
      proof
        fix v assume "v \<in> view ` {p \<in> set (photos d).
          photo_user_id p = owner \<and> \<not> is_member d ?aid (photo_id p)}"
        then obtain p where p: "p \<in> set (photos d)" "photo_user_id p = owner" "v = view p"
            "\<not> is_member d ?aid (photo_id p)"
          by auto
        then have "pv_id v \<notin> set (map pv_id ps)"
          using mem [OF p(1,2)] by (simp add: view_def)
        then show "v \<in> set av"
          using p by (auto simp: av_def photos_select_policy_def)
      qed
    qed
  qed
  ultimately show ?thesis using load inter by blast
qed

theorem available_is_complement_witness:
  "\<exists>ps av. loadAlbumData ex_db_two ''u1'' None None None (Some ''a1'') ''u1'' = AlbumData trip ps av \<and>
           set av \<inter> set ps = {} \<and>
           set av \<union> set ps = view ` {p \<in> set (photos ex_db_two). photo_user_id p = ''u1''}"
proof -
  have "trip \<in> set (albums ex_db_two)" "album_user_id trip = ''u1''" "album_id trip = ''a1''"
    "album_id trip \<noteq> []"
    by (simp_all add: ex_defs)
  then show ?thesis
    using available_is_complement [OF ex_unique_keys(3), of trip "''u1''"] by auto
qed

text \<open>
  C3 says that the available photos are always the photos of the owner minus the members
  of the album, disjoint from the album's photos and completing them to all photos of the
  owner. \<open>loadAlbumData\<close> breaks this when its second or third request fails, because
  it reads the error of the first request only. Album \<open>a1\<close> of \<open>u1\<close> has the members
  \<open>p1\<close> and \<open>p2\<close>, and \<open>u1\<close> owns \<open>p1\<close>, \<open>p2\<close> and \<open>p3\<close>. With the
  membership request failing, the page shows no error, an empty album, and all three photos
  as available, the members \<open>p1\<close> and \<open>p2\<close> among them. With the photos request
  failing, it shows no error and no available photo, so that \<open>p3\<close> is in neither list.
\<close>

theorem loadAlbumData_unchecked_errors:
  "loadAlbumData ex_db_two ''u1'' None (Some RequestFailed) None (Some ''a1'') ''u1'' =
     AlbumData trip []
       [view (mk_photo ''p1'' ''u1'' ''h/photos/u1/1.jpg'' 10),
        view (mk_photo ''p2'' ''u1'' ''h/photos/u1/2.jpg'' 11),
        view (mk_photo ''p3'' ''u1'' ''h/photos/u1/3.jpg'' 12)] \<and>
   is_member ex_db_two ''a1'' ''p1'' \<and>
   is_member ex_db_two ''a1'' ''p2'' \<and>
   loadAlbumData ex_db_two ''u1'' None None (Some RequestFailed) (Some ''a1'') ''u1'' =
     AlbumData trip
       [view (mk_photo ''p1'' ''u1'' ''h/photos/u1/1.jpg'' 10),
        view (mk_photo ''p2'' ''u1'' ''h/photos/u1/2.jpg'' 11)]
       [] \<and>
   owns_photo ex_db_two ''u1'' ''p3'' \<and>
   \<not> is_member ex_db_two ''a1'' ''p3''"
  by code_simp

section \<open>Deleting a photo\<close>

lemma filter_not_key:
  "distinct (map f xs) \<Longrightarrow> a \<in> set xs \<Longrightarrow> P a \<Longrightarrow>
   filter (\<lambda>x. \<not> (f x = f a \<and> P x)) xs = filter (\<lambda>x. f x \<noteq> f a) xs"
proof (rule filter_cong [OF refl])
  fix x assume d: "distinct (map f xs)" and a: "a \<in> set xs" and P: "P a" and x: "x \<in> set xs"
  have "f x = f a \<Longrightarrow> x = a"
    using d a x by (meson distinct_map inj_onD)
  then show "(\<not> (f x = f a \<and> P x)) = (f x \<noteq> f a)"
    using P by auto
qed

lemma clear_cover_eq:
  "(case cover_photo_id a of None \<Rightarrow> a
    | Some c \<Rightarrow> if c \<in> set (map photo_id qs) then a\<lparr>cover_photo_id := None\<rparr> else a) =
   (if cover_photo_id a \<in> Some ` photo_id ` set qs then a\<lparr>cover_photo_id := None\<rparr> else a)"
  by (auto split: option.splits)

lemma delete_photo_owned:
  assumes "distinct (map photo_id (photos d))" and "p \<in> set (photos d)"
    and "photo_user_id p = uid"
  shows "delete_photo d uid (photo_id p) =
     d\<lparr>photos := filter (\<lambda>q. photo_id q \<noteq> photo_id p) (photos d),
       album_photos := filter (\<lambda>r. ap_photo_id r \<noteq> photo_id p) (album_photos d),
       albums := map (\<lambda>a. if cover_photo_id a = Some (photo_id p)
                            then a\<lparr>cover_photo_id := None\<rparr> else a) (albums d)\<rparr>"
proof -
  have hit: "filter (\<lambda>q. photo_id q = photo_id p \<and> photos_delete_policy uid q) (photos d) = [p]"
    using filter_key_single [OF assms(1,2), of "photos_delete_policy uid"] assms(3)
    by (simp add: photos_delete_policy_def)
  have rest: "filter (\<lambda>q. \<not> (photo_id q = photo_id p \<and> photos_delete_policy uid q)) (photos d) =
      filter (\<lambda>q. photo_id q \<noteq> photo_id p) (photos d)"
    using filter_not_key [OF assms(1,2), of "photos_delete_policy uid"] assms(3)
    by (simp add: photos_delete_policy_def)
  show ?thesis
    unfolding delete_photo_def Let_def hit rest clear_cover_eq
    by simp
qed

lemma delete_photo_absent:
  assumes "\<forall>q\<in>set (photos d). \<not> (photo_id q = pid \<and> photo_user_id q = uid)"
  shows "delete_photo d uid pid = d"
proof -
  have hit: "filter (\<lambda>q. photo_id q = pid \<and> photos_delete_policy uid q) (photos d) = []"
    using assms by (auto simp: filter_empty_conv photos_delete_policy_def)
  have rest: "filter (\<lambda>q. \<not> (photo_id q = pid \<and> photos_delete_policy uid q)) (photos d) = photos d"
    using assms by (auto simp: filter_id_conv photos_delete_policy_def)
  show ?thesis
    unfolding delete_photo_def Let_def hit rest clear_cover_eq
    by simp
qed

text \<open>
  C4, as the code has it. User \<open>uid\<close> deletes a photo \<open>p\<close> of their own (the dialog
  confirmed, the request to the database not failing, keys unique). The photo row is gone
  and no other photo row is touched; every membership row of \<open>p\<close> is gone, in every album;
  every album is still there, with its cover cleared if the cover was \<open>p\<close>. Deleting the
  same photo again is not answered with an error: the delete matches no row, the database
  stays as it is and the success toast is shown again.
\<close>

theorem deletePhoto_cascades_and_repeats:
  assumes "unique_keys d" and "p \<in> set (photos d)" and "photo_user_id p = uid"
  shows "\<exists>d' st'.
      Home_handleDelete d st uid True sf None (photo_id p) url = (d', st', SuccessToast) \<and>
      photos d' = filter (\<lambda>q. photo_id q \<noteq> photo_id p) (photos d) \<and>
      photo_id p \<notin> set (map photo_id (photos d')) \<and>
      album_photos d' = filter (\<lambda>r. ap_photo_id r \<noteq> photo_id p) (album_photos d) \<and>
      (\<forall>aid. \<not> is_member d' aid (photo_id p)) \<and>
      albums d' = map (\<lambda>a. if cover_photo_id a = Some (photo_id p)
                            then a\<lparr>cover_photo_id := None\<rparr> else a) (albums d) \<and>
      (\<exists>st''. Home_handleDelete d' st' uid True sf None (photo_id p) url =
                (d', st'', SuccessToast))"
proof -
  let ?pid = "photo_id p"
  let ?d' = "d\<lparr>photos := filter (\<lambda>q. photo_id q \<noteq> ?pid) (photos d),
       album_photos := filter (\<lambda>r. ap_photo_id r \<noteq> ?pid) (album_photos d),
       albums := map (\<lambda>a. if cover_photo_id a = Some ?pid
                            then a\<lparr>cover_photo_id := None\<rparr> else a) (albums d)\<rparr>"
  have dp: "distinct (map photo_id (photos d))"
    using assms(1) by (simp add: unique_keys_def)
  have del: "delete_photo d uid ?pid = ?d'"
    using delete_photo_owned [OF dp assms(2,3)] .
  have again: "delete_photo ?d' uid ?pid = ?d'"
    by (rule delete_photo_absent) simp
  have "\<forall>aid. \<not> is_member ?d' aid ?pid"
    by (auto simp: is_member_def list_ex_iff)
  moreover have "?pid \<notin> set (map photo_id (photos ?d'))"
    by auto
  ultimately show ?thesis
    using del again by (simp add: Home_handleDelete_def request_def Let_def)
qed

theorem deletePhoto_cascades_and_repeats_witness:
  "\<exists>st' st''.
      Home_handleDelete ex_db_cover ex_storage ''u1'' True None None ''p1'' ''h/photos/u1/1.jpg'' =
        (ex_db_deleted, st', SuccessToast) \<and>
      Home_handleDelete ex_db_deleted st' ''u1'' True None None ''p1'' ''h/photos/u1/1.jpg'' =
        (ex_db_deleted, st'', SuccessToast)"
proof -
  have p: "mk_photo ''p1'' ''u1'' ''h/photos/u1/1.jpg'' 10 \<in> set (photos ex_db_cover)"
    "photo_user_id (mk_photo ''p1'' ''u1'' ''h/photos/u1/1.jpg'' 10) = ''u1''"
    "photo_id (mk_photo ''p1'' ''u1'' ''h/photos/u1/1.jpg'' 10) = ''p1''"
    by (simp_all add: ex_defs)
  from deletePhoto_cascades_and_repeats [OF ex_unique_keys(4) p(1,2), of ex_storage None "''h/photos/u1/1.jpg''"]
  obtain d' st' st'' where
    1: "Home_handleDelete ex_db_cover ex_storage ''u1'' True None None ''p1'' ''h/photos/u1/1.jpg'' = (d', st', SuccessToast)"
    and 2: "photos d' = filter (\<lambda>q. photo_id q \<noteq> ''p1'') (photos ex_db_cover)"
    and 3: "album_photos d' = filter (\<lambda>r. ap_photo_id r \<noteq> ''p1'') (album_photos ex_db_cover)"
    and 4: "albums d' = map (\<lambda>a. if cover_photo_id a = Some ''p1''
                            then a\<lparr>cover_photo_id := None\<rparr> else a) (albums ex_db_cover)"
    and 5: "Home_handleDelete d' st' ''u1'' True None None ''p1'' ''h/photos/u1/1.jpg'' = (d', st'', SuccessToast)"
    unfolding p(3) by blast
  have "d' = ex_db_deleted"
    using 1 by (simp add: Home_handleDelete_def request_def delete_photo_def photos_delete_policy_def ex_defs)
  then show ?thesis using 1 5 by blast
qed

text \<open>
  C4 as the specification words it fails in its last part: \<open>u1\<close> deletes \<open>p1\<close> (the
  cover of album \<open>a1\<close>), then deletes it again, and the second call ends with the success
  toast, not with a not-found error.
\<close>

theorem deletePhoto_repeat_counterexample:
  "Home_handleDelete ex_db_cover ex_storage ''u1'' True None None ''p1'' ''h/photos/u1/1.jpg'' =
        (ex_db_deleted, [''u1/2.jpg'', ''u1/3.jpg'', ''u2/1.jpg''], SuccessToast) \<and>
   Home_handleDelete ex_db_deleted [''u1/2.jpg'', ''u1/3.jpg'', ''u2/1.jpg''] ''u1'' True None None
       ''p1'' ''h/photos/u1/1.jpg'' =
        (ex_db_deleted, [''u1/2.jpg'', ''u1/3.jpg'', ''u2/1.jpg''], SuccessToast)"
  by (simp add: Home_handleDelete_def request_def delete_photo_def photos_delete_policy_def
      storage_remove_def storage_delete_policy_def storage_foldername_def split_def index1_def
      ex_defs)

text \<open>
  C10. Once the dialog is confirmed, what \<open>handleDelete\<close> does to the database and what
  it shows depend on the request to the database only, whatever the storage request did:
  a failing delete leaves the database and shows its error, a delete that does not fail
  runs and shows the success toast, and then a photo of the caller with that id is gone. The
  storage request is made in both cases.
\<close>

theorem deletePhoto_ignores_storage_result:
  "fst (Home_handleDelete d st uid True storage_fault fault photoId photoUrl) =
     (case fault of None \<Rightarrow> delete_photo d uid photoId | Some e \<Rightarrow> d) \<and>
   snd (snd (Home_handleDelete d st uid True storage_fault fault photoId photoUrl)) =
     (case fault of None \<Rightarrow> SuccessToast | Some e \<Rightarrow> ErrorToast e) \<and>
   fst (snd (Home_handleDelete d st uid True storage_fault fault photoId photoUrl)) =
     fst (storage_remove st uid storage_fault [index1 (split ''/photos/'' photoUrl)]) \<and>
   (fault = None \<longrightarrow>
      (\<forall>p\<in>set (photos d). photo_id p = photoId \<and> photo_user_id p = uid \<longrightarrow>
         p \<notin> set (photos (fst (Home_handleDelete d st uid True storage_fault fault photoId
                                  photoUrl)))))"
  by (cases fault)
     (auto simp: Home_handleDelete_def request_def Let_def delete_photo_def
        photos_delete_policy_def)

theorem deletePhoto_ignores_storage_result_witness:
  "Home_handleDelete ex_db_cover ex_storage ''u1'' True (Some RequestFailed) None ''p1''
      ''h/photos/u1/1.jpg'' = (ex_db_deleted, ex_storage, SuccessToast) \<and>
   mk_photo ''p1'' ''u1'' ''h/photos/u1/1.jpg'' 10 \<in> set (photos ex_db_cover) \<and>
   mk_photo ''p1'' ''u1'' ''h/photos/u1/1.jpg'' 10 \<notin> set (photos ex_db_deleted)"
proof -
  let ?H = "Home_handleDelete ex_db_cover ex_storage ''u1'' True (Some RequestFailed) None ''p1''
      ''h/photos/u1/1.jpg''"
  have p: "mk_photo ''p1'' ''u1'' ''h/photos/u1/1.jpg'' 10 \<in> set (photos ex_db_cover)"
    by (simp add: ex_defs)
  have q: "photo_id (mk_photo ''p1'' ''u1'' ''h/photos/u1/1.jpg'' 10) = ''p1'' \<and>
     photo_user_id (mk_photo ''p1'' ''u1'' ''h/photos/u1/1.jpg'' 10) = ''u1''"
    by (simp add: ex_defs)
  have del: "delete_photo ex_db_cover ''u1'' ''p1'' = ex_db_deleted"
    by (simp add: delete_photo_def photos_delete_policy_def ex_defs)
  have st: "fst (storage_remove ex_storage ''u1'' (Some RequestFailed)
      [index1 (split ''/photos/'' ''h/photos/u1/1.jpg'')]) = ex_storage"
    by (simp add: storage_remove_def)
  note t = deletePhoto_ignores_storage_result [of ex_db_cover ex_storage "''u1''"
      "Some RequestFailed" None "''p1''" "''h/photos/u1/1.jpg''"]
  have "fst ?H = ex_db_deleted" "snd (snd ?H) = SuccessToast" "fst (snd ?H) = ex_storage"
    using t del st by simp_all
  then have "?H = (ex_db_deleted, ex_storage, SuccessToast)"
    by (metis prod.collapse)
  moreover have "mk_photo ''p1'' ''u1'' ''h/photos/u1/1.jpg'' 10 \<notin> set (photos (fst ?H))"
    using t p q by blast
  ultimately show ?thesis using p by simp
qed

section \<open>Deleting an album\<close>

lemma delete_album_owned:
  assumes "distinct (map album_id (albums d))" and "a \<in> set (albums d)"
    and "album_user_id a = uid"
  shows "delete_album d uid (album_id a) =
     d\<lparr>albums := filter (\<lambda>b. album_id b \<noteq> album_id a) (albums d),
       album_photos := filter (\<lambda>r. ap_album_id r \<noteq> album_id a) (album_photos d)\<rparr>"
proof -
  have hit: "filter (\<lambda>b. album_id b = album_id a \<and> albums_delete_policy uid b) (albums d) = [a]"
    using filter_key_single [OF assms(1,2), of "albums_delete_policy uid"] assms(3)
    by (simp add: albums_delete_policy_def)
  have rest: "filter (\<lambda>b. \<not> (album_id b = album_id a \<and> albums_delete_policy uid b)) (albums d) =
      filter (\<lambda>b. album_id b \<noteq> album_id a) (albums d)"
    using filter_not_key [OF assms(1,2), of "albums_delete_policy uid"] assms(3)
    by (simp add: albums_delete_policy_def)
  show ?thesis
    unfolding delete_album_def Let_def hit rest
    by simp
qed

text \<open>
  C5. User \<open>uid\<close> deletes an album \<open>a\<close> of their own (the dialog confirmed, the request
  not failing, keys unique). The album row is gone and the other albums stay; the membership
  rows of \<open>a\<close> are gone and those of the other albums stay; the photo rows are the same as
  before, and every listing of photos answers as before.
\<close>

theorem deleteAlbum_keeps_photos:
  assumes "unique_keys d" and "a \<in> set (albums d)" and "album_user_id a = uid"
  shows "\<exists>d'. Albums_handleDelete d uid True None (album_id a) = (d', SuccessToast) \<and>
           albums d' = filter (\<lambda>b. album_id b \<noteq> album_id a) (albums d) \<and>
           album_id a \<notin> set (map album_id (albums d')) \<and>
           album_photos d' = filter (\<lambda>r. ap_album_id r \<noteq> album_id a) (album_photos d) \<and>
           album_members d' (album_id a) = [] \<and>
           photos d' = photos d \<and>
           (\<forall>u fault userId. loadPhotos d' u fault userId = loadPhotos d u fault userId)"
proof -
  let ?d' = "d\<lparr>albums := filter (\<lambda>b. album_id b \<noteq> album_id a) (albums d),
       album_photos := filter (\<lambda>r. ap_album_id r \<noteq> album_id a) (album_photos d)\<rparr>"
  have da: "distinct (map album_id (albums d))"
    using assms(1) by (simp add: unique_keys_def)
  have "Albums_handleDelete d uid True None (album_id a) = (?d', SuccessToast)"
    using delete_album_owned [OF da assms(2,3)]
    by (simp add: Albums_handleDelete_def request_def)
  moreover have "album_id a \<notin> set (map album_id (albums ?d'))"
    by auto
  moreover have "album_members ?d' (album_id a) = []"
    by (simp add: album_members_def filter_empty_conv)
  moreover have "\<forall>u fault userId. loadPhotos ?d' u fault userId = loadPhotos d u fault userId"
    by (simp add: loadPhotos_def)
  ultimately show ?thesis by simp
qed

theorem deleteAlbum_keeps_photos_witness:
  "\<exists>d'. Albums_handleDelete ex_db_two ''u1'' True None ''a1'' = (d', SuccessToast) \<and>
        albums d' = [home] \<and> album_photos d' = [] \<and> photos d' = photos ex_db_two \<and>
        loadPhotos d' ''u1'' None ''u1'' = loadPhotos ex_db_two ''u1'' None ''u1''"
proof -
  have a: "trip \<in> set (albums ex_db_two)" "album_user_id trip = ''u1''" "album_id trip = ''a1''"
    by (simp_all add: ex_defs)
  have b: "filter (\<lambda>b. album_id b \<noteq> ''a1'') (albums ex_db_two) = [home]"
     "filter (\<lambda>r. ap_album_id r \<noteq> ''a1'') (album_photos ex_db_two) = []"
    by (simp_all add: ex_defs)
  show ?thesis
    using deleteAlbum_keeps_photos [OF ex_unique_keys(3) a(1,2)] unfolding a(3) b
    by blast
qed

section \<open>One profile for every user\<close>

lemma is_member_key:
  "is_member d aid pid \<longleftrightarrow>
     (aid, pid) \<in> set (map (\<lambda>r. (ap_album_id r, ap_photo_id r)) (album_photos d))"
  by (auto simp: is_member_def list_ex_iff)

lemma insert_rows_inv:
  "insert_album_photos_rows d uid now rows = Inr d' \<Longrightarrow> profile_inv d \<Longrightarrow> profile_inv d'"
proof (induction d uid now rows rule: insert_album_photos_rows.induct)
  case (1 d uid now)
  then show ?case by simp
next
  case (2 d uid now aid pid rest)
  let ?row = "\<lparr>ap_album_id = aid, ap_photo_id = pid, added_at = now\<rparr>"
  let ?d = "d\<lparr>album_photos := album_photos d @ [?row]\<rparr>"
  from "2.prems"(1) have ok: "album_photos_insert_policy d uid ?row" "\<not> is_member d aid pid"
    and rest: "insert_album_photos_rows ?d uid now rest = Inr d'"
    by (simp_all add: Let_def split: if_splits)
  have "profile_inv ?d"
    using "2.prems"(2) ok(2) by (simp add: profile_inv_def unique_keys_def is_member_key)
  with "2.IH" [OF refl _ _ rest] ok show ?case
    by simp
qed

lemma insert_album_photos_inv:
  "insert_album_photos d uid now rows = Inr d' \<Longrightarrow> profile_inv d \<Longrightarrow> profile_inv d'"
  by (auto simp: insert_album_photos_def split: sum.splits if_splits dest: insert_rows_inv)

lemma delete_album_photo_inv: "profile_inv d \<Longrightarrow> profile_inv (delete_album_photo d uid aid pid)"
  by (simp add: profile_inv_def unique_keys_def delete_album_photo_def distinct_map_filter)

lemma insert_photo_inv:
  assumes "insert_photo d uid new_id now user_id url title description = Inr d'"
    and "profile_inv d"
  shows "profile_inv d'"
proof -
  from assms(1) obtain row where "d' = d\<lparr>photos := photos d @ [row]\<rparr>"
    "photo_id row \<notin> set (map photo_id (photos d))"
    by (auto simp: insert_photo_def Let_def split: if_splits)
  then show ?thesis
    using assms(2) by (simp add: profile_inv_def unique_keys_def)
qed

lemma insert_album_inv:
  assumes "insert_album d uid new_id now user_id name description = Inr d'"
    and "profile_inv d"
  shows "profile_inv d'"
proof -
  from assms(1) obtain row where "d' = d\<lparr>albums := albums d @ [row]\<rparr>"
    "album_id row \<notin> set (map album_id (albums d))"
    by (auto simp: insert_album_def Let_def split: if_splits)
  then show ?thesis
    using assms(2) by (simp add: profile_inv_def unique_keys_def)
qed

lemma album_id_clear:
  "album_id (case cover_photo_id a of None \<Rightarrow> a
       | Some c \<Rightarrow> if c \<in> S then a\<lparr>cover_photo_id := None\<rparr> else a) = album_id a"
  by (simp split: option.splits)

lemma delete_photo_inv: "profile_inv d \<Longrightarrow> profile_inv (delete_photo d uid pid)"
  by (simp add: profile_inv_def unique_keys_def delete_photo_def Let_def distinct_map_filter
      comp_def album_id_clear)

lemma delete_album_inv: "profile_inv d \<Longrightarrow> profile_inv (delete_album d uid aid)"
  by (simp add: profile_inv_def unique_keys_def delete_album_def Let_def distinct_map_filter)

lemma profile_keys_update:
  "profile_id (if b then p\<lparr>display_name := x, avatar_url := y\<rparr> else p) = profile_id p"
  "profile_user_id (if b then p\<lparr>display_name := x, avatar_url := y\<rparr> else p) =
     profile_user_id p"
  by simp_all

lemma update_profiles_inv: "profile_inv d \<Longrightarrow> profile_inv (update_profiles d uid user_id sn sa)"
  by (simp add: profile_inv_def unique_keys_def update_profiles_def comp_def
      profile_keys_update)

lemma insert_profile_inv:
  assumes "insert_profile d uid row = Inr d'" and "profile_inv d"
  shows "profile_inv d'"
proof -
  from assms(1) have "d' = d\<lparr>profiles := profiles d @ [row]\<rparr>"
    and "profile_id row \<notin> set (map profile_id (profiles d))"
    and "profile_user_id row \<notin> set (map profile_user_id (profiles d))"
    and "profile_user_id row \<in> set (map auth_id (auth_users d))"
    by (auto simp: insert_profile_def split: if_splits)
  then show ?thesis
    using assms(2) by (simp add: profile_inv_def unique_keys_def insert_absorb)
qed

lemma insert_auth_user_inv:
  assumes "insert_auth_user d new new_id now = Inr d'" and "profile_inv d"
  shows "profile_inv d'"
proof -
  from assms(1) obtain row where
    "d' = d\<lparr>auth_users := auth_users d @ [new], profiles := profiles d @ [row]\<rparr>"
    and "profile_user_id row = auth_id new"
    and "auth_id new \<notin> set (map auth_id (auth_users d))"
    and "profile_id row \<notin> set (map profile_id (profiles d))"
    and "auth_id new \<notin> set (map profile_user_id (profiles d))"
    by (auto simp: insert_auth_user_def handle_new_user_def Let_def split: if_splits)
  then show ?thesis
    using assms(2) by (simp add: profile_inv_def unique_keys_def)
qed

lemma reachable_inv: "reachable d \<Longrightarrow> profile_inv d"
proof (induction rule: reachable.induct)
  case start
  show ?case by (simp add: profile_inv_def unique_keys_def empty_db_def)
next
  case (signup d new new_id now d')
  then show ?case by (blast intro: insert_auth_user_inv)
next
  case (profile_insert d uid row d')
  then show ?case by (blast intro: insert_profile_inv)
next
  case (profile_update d uid user_id sn sa)
  then show ?case by (simp add: update_profiles_inv)
next
  case (photo_insert d uid new_id now user_id url title description d')
  then show ?case by (blast intro: insert_photo_inv)
next
  case (photo_delete d uid pid)
  then show ?case by (simp add: delete_photo_inv)
next
  case (album_insert d uid new_id now user_id name description d')
  then show ?case by (blast intro: insert_album_inv)
next
  case (album_delete d uid aid)
  then show ?case by (simp add: delete_album_inv)
next
  case (member_insert d uid now rows d')
  then show ?case by (blast intro: insert_album_photos_inv)
next
  case (member_delete d uid aid pid)
  then show ?case by (simp add: delete_album_photo_inv)
qed

lemma one_profile:
  assumes "profile_inv d" and "u \<in> set (auth_users d)"
  shows "length (profiles_of d (auth_id u)) = 1"
proof -
  have d: "distinct (map profile_user_id (profiles d))"
    using assms(1) by (simp add: profile_inv_def unique_keys_def)
  have "auth_id u \<in> set (map profile_user_id (profiles d))"
    using assms by (simp add: profile_inv_def)
  then obtain p where p: "p \<in> set (profiles d)" "profile_user_id p = auth_id u"
    by auto
  have "filter (\<lambda>q. profile_user_id q = profile_user_id p \<and> True) (profiles d) = [p]"
    using filter_key_single [OF d p(1), of "\<lambda>_. True"] by simp
  then show ?thesis
    using p(2) by (simp add: profiles_of_def)
qed

text \<open>
  C6. In a reachable database, creating the account of a new identity (the profile id
  fresh) succeeds and leaves exactly one profile row of that user, with the email as
  display name and no avatar. The same account cannot be created again and no second
  profile row of that user can be inserted: both are answered with a unique violation.
  Whatever the system does afterwards, signing in included, every user of every reachable
  database has exactly one profile row.
\<close>

theorem profile_created_once:
  assumes "reachable d"
    and "auth_id new \<notin> set (map auth_id (auth_users d))"
    and "new_id \<notin> set (map profile_id (profiles d))"
  shows "\<exists>d'. insert_auth_user d new new_id now = Inr d' \<and>
           profiles_of d' (auth_id new) =
             [\<lparr>profile_id = new_id, profile_user_id = auth_id new,
               display_name = auth_email new, avatar_url = None,
               profile_created_at = now\<rparr>] \<and>
           (\<forall>new_id' now'. insert_auth_user d' new new_id' now' = Inl UniqueViolation) \<and>
           (\<forall>row. profile_user_id row = auth_id new \<longrightarrow>
                    insert_profile d' (auth_id new) row = Inl UniqueViolation) \<and>
           (\<forall>d''. reachable d'' \<longrightarrow>
                    (\<forall>u\<in>set (auth_users d''). length (profiles_of d'' (auth_id u)) = 1))"
proof -
  let ?row = "\<lparr>profile_id = new_id, profile_user_id = auth_id new,
               display_name = auth_email new, avatar_url = None,
               profile_created_at = now\<rparr>"
  let ?d' = "d\<lparr>auth_users := auth_users d @ [new], profiles := profiles d @ [?row]\<rparr>"
  have inv: "profile_inv d"
    using assms(1) by (rule reachable_inv)
  then have none: "auth_id new \<notin> set (map profile_user_id (profiles d))"
    using assms(2) by (simp add: profile_inv_def)
  have ins: "insert_auth_user d new new_id now = Inr ?d'"
    using assms(2,3) none by (simp add: insert_auth_user_def handle_new_user_def)
  have "filter (\<lambda>p. profile_user_id p = auth_id new) (profiles d) = []"
    using none by (force simp: filter_empty_conv)
  then have one: "profiles_of ?d' (auth_id new) = [?row]"
    by (simp add: profiles_of_def)
  have again: "\<forall>new_id' now'. insert_auth_user ?d' new new_id' now' = Inl UniqueViolation"
    by (simp add: insert_auth_user_def)
  have direct: "\<forall>row. profile_user_id row = auth_id new \<longrightarrow>
      insert_profile ?d' (auth_id new) row = Inl UniqueViolation"
    by (simp add: insert_profile_def profiles_insert_policy_def)
  have "\<forall>d''. reachable d'' \<longrightarrow>
      (\<forall>u\<in>set (auth_users d''). length (profiles_of d'' (auth_id u)) = 1)"
    using reachable_inv one_profile by blast
  with ins one again direct show ?thesis
    by blast
qed

theorem profile_created_once_witness:
  "\<exists>d'. insert_auth_user empty_db ana ''r1'' 1 = Inr d' \<and>
        profiles d' = [\<lparr>profile_id = ''r1'', profile_user_id = ''u1'',
               display_name = Some ''ana@x.org'', avatar_url = None,
               profile_created_at = 1\<rparr>] \<and>
        insert_auth_user d' ana ''r9'' 2 = Inl UniqueViolation"
proof -
  have 1: "auth_id ana \<notin> set (map auth_id (auth_users empty_db))"
    "''r1'' \<notin> set (map profile_id (profiles empty_db))"
    by (simp_all add: ex_defs)
  from profile_created_once [OF reachable.start 1, of 1]
  obtain d' where d': "insert_auth_user empty_db ana ''r1'' 1 = Inr d'"
    "insert_auth_user d' ana ''r9'' 2 = Inl UniqueViolation"
    by blast
  then have "profiles d' = [\<lparr>profile_id = ''r1'', profile_user_id = ''u1'',
               display_name = Some ''ana@x.org'', avatar_url = None,
               profile_created_at = 1\<rparr>]"
    by (auto simp: insert_auth_user_def handle_new_user_def ex_defs)
  with d' show ?thesis by blast
qed

section \<open>Listing the photos of an album\<close>

lemma find_by_key:
  "distinct (map f xs) \<Longrightarrow> p \<in> set xs \<Longrightarrow> find (\<lambda>q. f q = f p) xs = Some p"
proof (induction xs)
  case Nil
  then show ?case by simp
next
  case (Cons x xs)
  show ?case
  proof (cases "x = p")
    case True
    then show ?thesis by simp
  next
    case False
    then have "p \<in> set xs" using Cons.prems(2) by simp
    moreover have "f x \<noteq> f p"
      using Cons.prems(1) \<open>p \<in> set xs\<close> by (metis distinct.simps(2) imageI list.simps(9) set_map)
    ultimately show ?thesis using Cons by simp
  qed
qed

lemma embed_photo_None: "embed_photo d uid r = None \<longleftrightarrow> \<not> owns_photo d uid (ap_photo_id r)"
  by (auto simp: embed_photo_def find_None_iff owns_photo_def list_ex_iff photos_select_policy_def)

lemma embed_photo_owns:
  "embed_photo d uid r = Some p \<Longrightarrow> owns_photo d uid (ap_photo_id r)"
  using embed_photo_None [of d uid r] by simp

lemma embed_photo_url:
  assumes "distinct (map photo_id (photos d))" and "embed_photo d uid r = Some p"
  shows "url_of d (ap_photo_id r) = Some (photo_url p)"
proof -
  have p: "p \<in> set (photos d)" "photo_id p = ap_photo_id r"
    using embed_photo_Some [OF assms(2)] by simp_all
  show ?thesis
    using find_by_key [OF assms(1) p(1)] p(2) by (simp add: url_of_def)
qed

lemma embedded_ids:
  "map pv_id (filter_Boolean (map (\<lambda>r. map_option view (embed_photo d uid r)) rs)) =
     filter (owns_photo d uid) (map ap_photo_id rs)"
proof (induction rs)
  case Nil
  then show ?case by simp
next
  case (Cons r rs)
  show ?case
  proof (cases "embed_photo d uid r")
    case None
    then show ?thesis using Cons embed_photo_None [of d uid r] by simp
  next
    case (Some p)
    then show ?thesis
      using Cons embed_photo_owns [OF Some] embed_photo_Some [OF Some] by (simp add: view_def)
  qed
qed

lemma embedded_urls:
  assumes "distinct (map photo_id (photos d))"
  shows "map Some (filter_Boolean (map (\<lambda>r. map_option photo_url (embed_photo d uid r)) rs)) =
     map (url_of d) (filter (owns_photo d uid) (map ap_photo_id rs))"
proof (induction rs)
  case Nil
  then show ?case by simp
next
  case (Cons r rs)
  show ?case
  proof (cases "embed_photo d uid r")
    case None
    then show ?thesis using Cons embed_photo_None [of d uid r] by simp
  next
    case (Some p)
    then show ?thesis
      using Cons embed_photo_owns [OF Some] embed_photo_url [OF assms Some] by simp
  qed
qed

lemma owned_rows:
  "owns_album d uid aid \<Longrightarrow>
   filter (\<lambda>r. album_photos_select_policy d uid r \<and> ap_album_id r = aid) (album_photos d) =
     filter (\<lambda>r. ap_album_id r = aid) (album_photos d)"
  by (rule filter_cong) (auto simp: album_photos_select_policy_def)

lemma album_members_distinct:
  assumes "distinct (map (\<lambda>r. (ap_album_id r, ap_photo_id r)) (album_photos d))"
  shows "distinct (album_members d aid)"
proof -
  have "distinct (map (\<lambda>r. (ap_album_id r, ap_photo_id r))
          (filter (\<lambda>r. ap_album_id r = aid) (album_photos d)))"
    using assms by (rule distinct_map_filter)
  then have "inj_on (\<lambda>r. (ap_album_id r, ap_photo_id r))
      (set (filter (\<lambda>r. ap_album_id r = aid) (album_photos d)))"
    and dr: "distinct (filter (\<lambda>r. ap_album_id r = aid) (album_photos d))"
    by (simp_all add: distinct_map)
  then have "inj_on ap_photo_id (set (filter (\<lambda>r. ap_album_id r = aid) (album_photos d)))"
    by (auto simp: inj_on_def)
  then show ?thesis
    using dr by (simp add: album_members_def distinct_map)
qed

lemma is_member_members: "is_member d aid pid \<longleftrightarrow> pid \<in> set (album_members d aid)"
  by (auto simp: is_member_def album_members_def list_ex_iff)

lemma loadAlbumData_owned:
  assumes "distinct (map album_id (albums d))" and "a \<in> set (albums d)"
    and "album_user_id a = owner" and "album_id a \<noteq> []"
  shows "\<exists>av. loadAlbumData d owner None None None (Some (album_id a)) owner =
    AlbumData a
      (filter_Boolean (map (\<lambda>r. map_option view (embed_photo d owner r))
         (filter (\<lambda>r. ap_album_id r = album_id a) (album_photos d)))) av"
proof -
  have own: "owns_album d owner (album_id a)"
    using assms(2,3) by (auto simp: owns_album_def list_ex_iff)
  have "filter (\<lambda>a'. album_id a' = album_id a \<and>
           (albums_select_policy owner a' \<and> album_user_id a' = owner)) (albums d) = [a]"
    using filter_key_single [OF assms(1,2),
        of "\<lambda>a'. albums_select_policy owner a' \<and> album_user_id a' = owner"] assms(3)
    by (simp add: albums_select_policy_def)
  then have "single (filter (\<lambda>a'. albums_select_policy owner a' \<and> album_id a' = album_id a \<and>
      album_user_id a' = owner) (albums d)) = Inr a"
    by (simp add: single_def conj_ac cong: conj_cong)
  then show ?thesis
    using assms(4) by (simp add: loadAlbumData_def request_def Let_def owned_rows [OF own])
qed

text \<open>
  C7, as the code has it. For an album \<open>a\<close> of \<open>owner\<close> (keys unique),
  \<open>loadAlbumData\<close> lists the member photos that belong to \<open>owner\<close>, each once, in the
  stored order of the membership rows: the select asks for no order, and
  \<^verbatim>\<open>added_at\<close> is not read.
\<close>

theorem albumPhotos_in_stored_order:
  assumes "unique_keys d" and "a \<in> set (albums d)" and "album_user_id a = owner"
    and "album_id a \<noteq> []"
  shows "\<exists>ps av.
      loadAlbumData d owner None None None (Some (album_id a)) owner = AlbumData a ps av \<and>
      map pv_id ps = filter (owns_photo d owner) (album_members d (album_id a)) \<and>
      set ps = view ` {p \<in> set (photos d).
                        photo_user_id p = owner \<and> is_member d (album_id a) (photo_id p)} \<and>
      distinct ps"
proof -
  let ?aid = "album_id a"
  define ps where "ps = filter_Boolean (map (\<lambda>r. map_option view (embed_photo d owner r))
         (filter (\<lambda>r. ap_album_id r = ?aid) (album_photos d)))"
  have da: "distinct (map album_id (albums d))" and dp: "distinct (map photo_id (photos d))"
    and dm: "distinct (map (\<lambda>r. (ap_album_id r, ap_photo_id r)) (album_photos d))"
    using assms(1) by (simp_all add: unique_keys_def)
  obtain av where load:
    "loadAlbumData d owner None None None (Some ?aid) owner = AlbumData a ps av"
    using loadAlbumData_owned [OF da assms(2,3,4)] unfolding ps_def by blast
  have ids: "map pv_id ps = filter (owns_photo d owner) (album_members d ?aid)"
    by (simp add: ps_def embedded_ids album_members_def)
  have "distinct (map pv_id ps)"
    unfolding ids using album_members_distinct [OF dm] by simp
  then have dist: "distinct ps"
    by (simp add: distinct_map)
  have views: "\<exists>p. p \<in> set (photos d) \<and> photo_user_id p = owner \<and> v = view p"
    if "v \<in> set ps" for v
  proof -
    from that obtain r where "Some v = map_option view (embed_photo d owner r)"
      by (auto simp: ps_def set_filter_Boolean)
    then obtain p where "embed_photo d owner r = Some p" "v = view p"
      by (cases "embed_photo d owner r") auto
    then show ?thesis
      using embed_photo_Some by blast
  qed
  have "set ps = view ` {p \<in> set (photos d).
      photo_user_id p = owner \<and> is_member d ?aid (photo_id p)}"
  proof
    show "set ps \<subseteq> view ` {p \<in> set (photos d).
        photo_user_id p = owner \<and> is_member d ?aid (photo_id p)}"
    proof
      fix v assume v: "v \<in> set ps"
      then obtain p where p: "p \<in> set (photos d)" "photo_user_id p = owner" "v = view p"
        using views by blast
      have "pv_id v \<in> set (map pv_id ps)"
        using v by simp
      then have "photo_id p \<in> set (album_members d ?aid)"
        unfolding ids using p(3) by (simp add: view_def)
      then show "v \<in> view ` {p \<in> set (photos d).
          photo_user_id p = owner \<and> is_member d ?aid (photo_id p)}"
        using p by (auto simp: is_member_members)
    qed
  next
    show "view ` {p \<in> set (photos d).
        photo_user_id p = owner \<and> is_member d ?aid (photo_id p)} \<subseteq> set ps"
    proof
      fix v assume "v \<in> view ` {p \<in> set (photos d).
        photo_user_id p = owner \<and> is_member d ?aid (photo_id p)}"
      then obtain p where p: "p \<in> set (photos d)" "photo_user_id p = owner" "v = view p"
          "is_member d ?aid (photo_id p)"
        by auto
      have "owns_photo d owner (photo_id p)"
        using p(1,2) by (auto simp: owns_photo_def list_ex_iff)
      then have "photo_id p \<in> set (map pv_id ps)"
        unfolding ids using p(4) by (simp add: is_member_members)
      then obtain v' where v': "v' \<in> set ps" "pv_id v' = photo_id p"
        by auto
      then obtain p' where p': "p' \<in> set (photos d)" "v' = view p'"
        using views by blast
      have "photo_id p' = photo_id p"
        using v'(2) p'(2) by (simp add: view_def)
      then have "p' = p"
        using dp p(1) p'(1) by (meson distinct_map inj_onD)
      then show "v \<in> set ps"
        using v'(1) p'(2) p(3) by simp
    qed
  qed
  with load ids dist show ?thesis
    by blast
qed

theorem albumPhotos_in_stored_order_witness:
  "\<exists>ps av.
      loadAlbumData ex_db_two ''u1'' None None None (Some ''a1'') ''u1'' = AlbumData trip ps av \<and>
      map pv_id ps = [''p1'', ''p2''] \<and> distinct ps"
proof -
  have a: "trip \<in> set (albums ex_db_two)" "album_user_id trip = ''u1''" "album_id trip = ''a1''"
    "album_id trip \<noteq> []"
    by (simp_all add: ex_defs)
  have "filter (owns_photo ex_db_two ''u1'') (album_members ex_db_two ''a1'') = [''p1'', ''p2'']"
    by (simp add: owns_photo_def album_members_def ex_defs)
  then show ?thesis
    using albumPhotos_in_stored_order [OF ex_unique_keys(3) a(1,2,4)] unfolding a(3)
    by auto
qed

text \<open>
  C7 as the specification words it fails: \<open>p1\<close> was added to \<open>a1\<close> at time 30 and
  \<open>p2\<close> at time 31; the page lists \<open>p1\<close> before \<open>p2\<close>, and most recent first is
  \<open>p2\<close> before \<open>p1\<close>.
\<close>

theorem albumPhotos_recency_counterexample:
  "loadAlbumData ex_db_two ''u1'' None None None (Some ''a1'') ''u1'' =
     AlbumData trip
       [view (mk_photo ''p1'' ''u1'' ''h/photos/u1/1.jpg'' 10),
        view (mk_photo ''p2'' ''u1'' ''h/photos/u1/2.jpg'' 11)]
       [view (mk_photo ''p3'' ''u1'' ''h/photos/u1/3.jpg'' 12)] \<and>
   album_photos ex_db_two = [mk_member ''a1'' ''p1'' 30, mk_member ''a1'' ''p2'' 31] \<and>
   spec_listAlbumPhotos ex_db_two ''a1'' = [''p2'', ''p1'']"
  by code_simp

section \<open>Listing the albums\<close>

lemma order_desc_set [simp]: "set (order_desc key rows) = set rows"
  by (simp add: order_desc_def)

lemma order_desc_sorted: "sorted_wrt (\<lambda>a b. key b \<le> key a) (order_desc key rows)"
proof -
  have "sorted (map key (sort_key key rows))"
    by (rule sorted_sort_key)
  then have "sorted_wrt (\<lambda>a b. key a \<le> key b) (sort_key key rows)"
    by (simp add: sorted_map)
  then show ?thesis
    by (simp add: order_desc_def sorted_wrt_rev)
qed

lemma order_desc_distinct: "distinct rows \<Longrightarrow> distinct (order_desc key rows)"
  by (simp add: order_desc_def)

lemma cover_of_urls:
  assumes "map Some urls = map f ids" and "\<forall>i\<in>set ids. f i \<noteq> None"
  shows "(case urls of [] \<Rightarrow> None | url # _ \<Rightarrow> Some url) =
         (case ids of [] \<Rightarrow> None | i # _ \<Rightarrow> f i)"
  using assms by (cases urls; cases ids) auto

text \<open>
  C8, as the code has it. \<open>loadAlbums\<close> lists the albums of \<open>owner\<close>, each once,
  most recently created first. The image of a card is the url of the first member photo of
  \<open>owner\<close> in the stored order of the membership rows, and none without such a photo;
  neither \<^verbatim>\<open>cover_photo_id\<close> nor \<^verbatim>\<open>added_at\<close> is read.
\<close>

theorem loadAlbums_newest_first_first_photo_cover:
  assumes "unique_keys d"
  shows "\<exists>cards. loadAlbums d owner None owner = Inr cards \<and>
      map card_album cards =
        order_desc album_created_at (filter (\<lambda>a. album_user_id a = owner) (albums d)) \<and>
      set (map card_album cards) = {a \<in> set (albums d). album_user_id a = owner} \<and>
      distinct (map card_album cards) \<and>
      sorted_wrt (\<lambda>a b. album_created_at b \<le> album_created_at a) (map card_album cards) \<and>
      (\<forall>card\<in>set cards.
         album_cover card =
           (case filter (owns_photo d owner) (album_members d (album_id (card_album card))) of
              [] \<Rightarrow> None
            | pid # _ \<Rightarrow> url_of d pid))"
proof -
  let ?mine = "filter (\<lambda>a. album_user_id a = owner) (albums d)"
  let ?card = "\<lambda>a. \<lparr>card_album = a,
      card_photos = filter_Boolean (map (\<lambda>r. map_option photo_url (embed_photo d owner r))
                      (embed_album_photos d owner a))\<rparr>"
  let ?cards = "map ?card (order_desc album_created_at ?mine)"
  have dp: "distinct (map photo_id (photos d))" and da: "distinct (map album_id (albums d))"
    using assms by (simp_all add: unique_keys_def)
  have sel: "filter (\<lambda>a. albums_select_policy owner a \<and> album_user_id a = owner) (albums d) = ?mine"
    by (rule filter_cong) (auto simp: albums_select_policy_def)
  have load: "loadAlbums d owner None owner = Inr ?cards"
    by (simp add: loadAlbums_def request_def sel comp_def)
  have albums: "map card_album ?cards = order_desc album_created_at ?mine"
    by (simp add: comp_def)
  have "distinct (albums d)"
    using da by (simp add: distinct_map)
  then have dist: "distinct (map card_album ?cards)"
    unfolding albums by (simp add: order_desc_distinct)
  have cover: "album_cover card =
      (case filter (owns_photo d owner) (album_members d (album_id (card_album card))) of
         [] \<Rightarrow> None | pid # _ \<Rightarrow> url_of d pid)"
    if "card \<in> set ?cards" for card
  proof -
    from that obtain a where a: "a \<in> set (albums d)" "album_user_id a = owner" "card = ?card a"
      by auto
    have own: "owns_album d owner (album_id a)"
      using a(1,2) by (auto simp: owns_album_def list_ex_iff)
    have rows: "embed_album_photos d owner a =
        filter (\<lambda>r. ap_album_id r = album_id a) (album_photos d)"
      using owned_rows [OF own] by (simp add: embed_album_photos_def)
    have urls: "map Some (card_photos card) =
        map (url_of d) (filter (owns_photo d owner) (album_members d (album_id a)))"
      using embedded_urls [OF dp] by (simp add: a(3) rows album_members_def)
    have "\<forall>pid\<in>set (filter (owns_photo d owner) (album_members d (album_id a))).
        url_of d pid \<noteq> None"
      by (auto simp: url_of_def owns_photo_def list_ex_iff find_None_iff)
    from cover_of_urls [OF urls this] show ?thesis
      by (simp add: album_cover_def a(3))
  qed
  have "set (map card_album ?cards) = {a \<in> set (albums d). album_user_id a = owner}"
    unfolding albums by auto
  moreover have "sorted_wrt (\<lambda>a b. album_created_at b \<le> album_created_at a)
      (map card_album ?cards)"
    unfolding albums by (rule order_desc_sorted)
  ultimately show ?thesis
    using load albums dist cover by blast
qed

theorem loadAlbums_newest_first_first_photo_cover_witness:
  "\<exists>cards. loadAlbums ex_db_two ''u1'' None ''u1'' = Inr cards \<and>
      map card_album cards = [home, trip] \<and>
      map album_cover cards = [None, Some ''h/photos/u1/1.jpg'']"
proof -
  from loadAlbums_newest_first_first_photo_cover [OF ex_unique_keys(3), of "''u1''"]
  obtain cards where c: "loadAlbums ex_db_two ''u1'' None ''u1'' = Inr cards"
    "map card_album cards =
        order_desc album_created_at (filter (\<lambda>a. album_user_id a = ''u1'') (albums ex_db_two))"
    "\<forall>card\<in>set cards.
         album_cover card =
           (case filter (owns_photo ex_db_two ''u1'')
                   (album_members ex_db_two (album_id (card_album card))) of
              [] \<Rightarrow> None
            | pid # _ \<Rightarrow> url_of ex_db_two pid)"
    by blast
  have "order_desc album_created_at (filter (\<lambda>a. album_user_id a = ''u1'') (albums ex_db_two))
      = [home, trip]"
    by (simp add: order_desc_def ex_defs)
  with c(2) have m: "map card_album cards = [home, trip]"
    by simp
  then obtain c1 c2 where cs: "cards = [c1, c2]" "card_album c1 = home" "card_album c2 = trip"
    by auto
  have "(case filter (owns_photo ex_db_two ''u1'') (album_members ex_db_two (album_id home)) of
              [] \<Rightarrow> None | pid # _ \<Rightarrow> url_of ex_db_two pid) = None"
     "(case filter (owns_photo ex_db_two ''u1'') (album_members ex_db_two (album_id trip)) of
              [] \<Rightarrow> None | pid # _ \<Rightarrow> url_of ex_db_two pid) = Some ''h/photos/u1/1.jpg''"
    by (simp_all add: owns_photo_def album_members_def url_of_def ex_defs)
  with c(3) cs have "map album_cover cards = [None, Some ''h/photos/u1/1.jpg'']"
    by simp
  with c(1) m show ?thesis by simp
qed

text \<open>
  C8 as the specification words it fails on the cover: album \<open>a1\<close> has \<open>p1\<close> (added
  at 30) and \<open>p2\<close> (added at 31) and no cover set; the card shows \<open>p1\<close>, and the most
  recently added member is \<open>p2\<close>.
\<close>

theorem loadAlbums_cover_counterexample:
  "loadAlbums ex_db_two ''u1'' None ''u1'' =
     Inr [\<lparr>card_album = home, card_photos = []\<rparr>,
          \<lparr>card_album = trip, card_photos = [''h/photos/u1/1.jpg'', ''h/photos/u1/2.jpg'']\<rparr>] \<and>
   album_cover \<lparr>card_album = trip,
                card_photos = [''h/photos/u1/1.jpg'', ''h/photos/u1/2.jpg'']\<rparr> =
     Some ''h/photos/u1/1.jpg'' \<and>
   spec_cover ex_db_two trip = Some ''h/photos/u1/2.jpg''"
  by code_simp

section \<open>Creating an album\<close>

text \<open>
  C9, as the code has it. For a signed-in user and a fresh album id, \<open>handleCreate\<close>
  inserts the album with the name it is given, whatever the name, the empty string
  included. Only the form stands before it: a submit with an empty name does not call
  \<open>handleCreate\<close>, and any other name goes through unchanged.
\<close>

theorem createAlbum_accepts_any_name:
  assumes "uid \<in> set (map auth_id (auth_users d))"
    and "new_id \<notin> set (map album_id (albums d))"
  shows "handleCreate d (Some uid) new_id now None name description =
           (d\<lparr>albums := albums d @
                 [\<lparr>album_id = new_id, album_user_id = uid, album_name = name,
                   album_description = or_null description, cover_photo_id = None,
                   album_created_at = now\<rparr>]\<rparr>,
            SuccessToast) \<and>
         create_form_submit d (Some uid) new_id now None name description =
           (if name = [] then (d, Returned)
            else handleCreate d (Some uid) new_id now None name description)"
  using assms
  by (simp add: handleCreate_def create_form_submit_def request_def insert_album_def
      albums_insert_policy_def)

theorem createAlbum_accepts_any_name_witness:
  "handleCreate ex_db (Some ''u1'') ''a3'' 40 None ''Sea'' ''2024'' =
     (ex_db\<lparr>albums := albums ex_db @
                 [\<lparr>album_id = ''a3'', album_user_id = ''u1'', album_name = ''Sea'',
                   album_description = Some ''2024'', cover_photo_id = None,
                   album_created_at = 40\<rparr>]\<rparr>,
      SuccessToast) \<and>
   create_form_submit ex_db (Some ''u1'') ''a3'' 40 None [] ''2024'' = (ex_db, Returned)"
proof -
  have "''u1'' \<in> set (map auth_id (auth_users ex_db))"
    "''a3'' \<notin> set (map album_id (albums ex_db))"
    by (simp_all add: ex_defs)
  from createAlbum_accepts_any_name [OF this, of 40 "''Sea''" "''2024''"]
    createAlbum_accepts_any_name [OF this, of 40 "[]" "''2024''"]
  show ?thesis
    by (simp add: or_null_def)
qed

text \<open>
  C9 as the specification words it fails: \<open>handleCreate\<close> with the empty name inserts
  an album row whose name is empty and shows the success toast.
\<close>

theorem createAlbum_empty_name_counterexample:
  "handleCreate ex_db (Some ''u1'') ''a3'' 40 None [] [] =
     (ex_db\<lparr>albums := albums ex_db @
                 [\<lparr>album_id = ''a3'', album_user_id = ''u1'', album_name = [],
                   album_description = None, cover_photo_id = None,
                   album_created_at = 40\<rparr>]\<rparr>,
      SuccessToast)"
  by (simp add: handleCreate_def request_def insert_album_def albums_insert_policy_def
      or_null_def ex_defs)

end
